theory Spec2Isabelle
  imports Complex_Main "HOL-Library.Sublist" "HOL-Library.Multiset"
begin

section \<open>JavaScript values\<close>

text \<open>
  A JavaScript \<open>number\<close> is an IEEE 754 double. Finite doubles are carried as the rational
  they denote; the two infinities and NaN are constructors of their own. Negative zero is
  identified with zero (the two are equal under \<open>===\<close> and under every comparison the
  program makes).
\<close>

datatype jsnum = Finite rat | PosInf | NegInf | NaN

fun ilog2 :: "nat \<Rightarrow> nat" where
  "ilog2 n = (if n < 2 then 0 else Suc (ilog2 (n div 2)))"

declare ilog2.simps [simp del]

definition floor_log2 :: "rat \<Rightarrow> int" where
  \<comment> \<open>\<open>\<lfloor>log\<^sub>2 q\<rfloor>\<close> for \<open>q > 0\<close>\<close>
  "floor_log2 q =
     (if 1 \<le> q then int (ilog2 (nat \<lfloor>q\<rfloor>))
      else (let n = nat \<lceil>1 / q\<rceil> in - int (if n \<le> 1 then 0 else Suc (ilog2 (n - 1)))))"

definition pow2 :: "int \<Rightarrow> rat" where
  "pow2 e = (if 0 \<le> e then 2 ^ nat e else 1 / 2 ^ nat (- e))"

definition round_half_even :: "rat \<Rightarrow> int" where
  "round_half_even q =
     (let f = \<lfloor>q\<rfloor>; d = q - of_int f
      in if d < 1 / 2 then f else if 1 / 2 < d then f + 1 else if even f then f else f + 1)"

definition round_double :: "rat \<Rightarrow> jsnum" where
  \<comment> \<open>round to nearest, ties to even, on 53 bits of precision; exponents of a double\<close>
  "round_double q =
     (if q = 0 then Finite 0
      else (let a = \<bar>q\<bar>;
                e = max (floor_log2 a) (- 1022);
                ulp = pow2 (e - 52);
                m = of_int (round_half_even (a / ulp)) * ulp
            in if pow2 1024 \<le> m then (if 0 < q then PosInf else NegInf)
               else Finite (if 0 < q then m else - m)))"

text \<open>
  The value of a parsed JSON text. A string is the list of its UTF-16 code units, an object
  the list of its members, one for each key, in the order the keys first come in.
\<close>

datatype json =
    JNull
  | JBool bool
  | JNum jsnum
  | JStr "nat list"
  | JArr "json list"
  | JObj "(nat list \<times> json) list"

text \<open>What a call does: it returns a value, or an exception leaves it.\<close>

datatype 'a outcome = Returns 'a | Throws string

section \<open>The response extractor\<close>

subsection \<open>The regular expression of \<open>parseJsonResponse\<close>\<close>

text \<open>
  \<^verbatim>\<open>text.match(/```(?:json)?\s*([\s\S]*?)\s*```/)\<close>: a backtracking match, tried at
  every start position from the left; the functions below follow the pattern from its end
  to its start, each trying its alternatives in the order of the engine.
  The text is a list of code units below 256.
\<close>

definition fence :: string where
  "fence = ''```''"

definition is_space :: "char \<Rightarrow> bool" where
  \<comment> \<open>the class \<open>\s\<close>: tab, line feed, vertical tab, form feed, carriage return, space,
      no-break space\<close>
  "is_space c = (of_char c \<in> {9, 10, 11, 12, 13, 32, 160 :: nat})"

definition match_tail :: "string \<Rightarrow> bool" where
  \<comment> \<open>\<open>\s*```\<close> at the head of the text: a backtick is no space, so only the whole run of
      spaces can be followed by the fence\<close>
  "match_tail s = prefix fence (dropWhile is_space s)"

fun lazy_group :: "string \<Rightarrow> string option" where
  \<comment> \<open>\<open>([\s\S]*?)\s*```\<close>: the shortest group first; the result is the group\<close>
  "lazy_group s =
     (if match_tail s then Some []
      else (case s of [] \<Rightarrow> None | c # cs \<Rightarrow> map_option ((#) c) (lazy_group cs)))"

fun after_space :: "string \<Rightarrow> string option" where
  \<comment> \<open>\<open>\s*\<close> before the group: the longest run first, then one space less\<close>
  "after_space [] = lazy_group []"
| "after_space (c # cs) =
     (if is_space c
      then (case after_space cs of Some g \<Rightarrow> Some g | None \<Rightarrow> lazy_group (c # cs))
      else lazy_group (c # cs))"

definition after_tag :: "string \<Rightarrow> string option" where
  \<comment> \<open>\<open>(?:json)?\<close>: with the tag first, then without\<close>
  "after_tag s =
     (if prefix ''json'' s
      then (case after_space (drop 4 s) of Some g \<Rightarrow> Some g | None \<Rightarrow> after_space s)
      else after_space s)"

definition match_here :: "string \<Rightarrow> string option" where
  "match_here s = (if prefix fence s then after_tag (drop 3 s) else None)"

fun regex_match :: "string \<Rightarrow> string option" where
  \<comment> \<open>\<open>None\<close>: \<open>match\<close> is null; \<open>Some g\<close>: \<open>match[1]\<close> is \<open>g\<close>\<close>
  "regex_match s =
     (case match_here s of
        Some g \<Rightarrow> Some g
      | None \<Rightarrow> (case s of [] \<Rightarrow> None | c # cs \<Rightarrow> regex_match cs))"

declare lazy_group.simps [simp del]
declare regex_match.simps [simp del]

subsection \<open>\<open>indexOf\<close>, \<open>lastIndexOf\<close>, \<open>substring\<close>\<close>

fun indexOf :: "string \<Rightarrow> char \<Rightarrow> int" where
  "indexOf [] c = - 1"
| "indexOf (x # xs) c =
     (if x = c then 0 else (let r = indexOf xs c in if r = - 1 then - 1 else r + 1))"

definition lastIndexOf :: "string \<Rightarrow> char \<Rightarrow> int" where
  "lastIndexOf s c =
     (let r = indexOf (rev s) c in if r = - 1 then - 1 else int (length s) - 1 - r)"

definition substring :: "string \<Rightarrow> int \<Rightarrow> int \<Rightarrow> string" where
  \<comment> \<open>both arguments are clamped to the text, and swapped when the first is the larger\<close>
  "substring s a b =
     (let n = int (length s);
          a' = min (max a 0) n;
          b' = min (max b 0) n;
          lo = min a' b';
          hi = max a' b'
      in take (nat (hi - lo)) (drop (nat lo) s))"

subsection \<open>\<open>parseJsonResponse\<close>\<close>

text \<open>
  \<open>JSON.parse\<close> is the parameter \<open>jp\<close>: \<open>None\<close> where it throws, \<open>Some v\<close> where it
  returns \<open>v\<close>.
\<close>

definition JSON_parse :: "(string \<Rightarrow> json option) \<Rightarrow> string \<Rightarrow> json outcome" where
  "JSON_parse jp s = (case jp s of None \<Rightarrow> Throws ''SyntaxError'' | Some v \<Rightarrow> Returns v)"

definition bracket_scan :: "(string \<Rightarrow> json option) \<Rightarrow> string \<Rightarrow> json outcome" where
  \<comment> \<open>lines 28 to 44 of the function\<close>
  "bracket_scan jp text =
     (let firstBrace = indexOf text CHR ''{'';
          firstBracket = indexOf text CHR ''['';
          startIdx = (if firstBrace \<noteq> - 1 \<and> firstBracket \<noteq> - 1 then min firstBrace firstBracket
                      else if firstBrace \<noteq> - 1 then firstBrace
                      else firstBracket)
      in if startIdx = - 1 then Returns JNull
         else (let lastBrace = lastIndexOf text CHR ''}'';
                   lastBracket = lastIndexOf text CHR '']'';
                   endIdx = max lastBrace lastBracket
               in if endIdx = - 1 then Returns JNull
                  else JSON_parse jp (substring text startIdx (endIdx + 1))))"

definition parseJsonResponse_try :: "(string \<Rightarrow> json option) \<Rightarrow> string \<Rightarrow> json outcome" where
  \<comment> \<open>the body of the \<open>try\<close>\<close>
  "parseJsonResponse_try jp text =
     (case regex_match text of
        Some g \<Rightarrow> (if g \<noteq> [] then JSON_parse jp g else bracket_scan jp text)
      | None \<Rightarrow> bracket_scan jp text)"

definition parseJsonResponse :: "(string \<Rightarrow> json option) \<Rightarrow> string \<Rightarrow> json outcome" where
  \<comment> \<open>the \<open>catch\<close> logs and returns null\<close>
  "parseJsonResponse jp text =
     (case parseJsonResponse_try jp text of
        Throws e \<Rightarrow> Returns JNull
      | Returns v \<Rightarrow> Returns v)"

section \<open>Online stores: price parsing and sorting\<close>

record OnlineStore =
  platform :: string
  price :: string
  stockStatus :: string
  url :: string

datatype OnlineStoreSortKey = Match | Price_asc | Price_desc

definition is_digit :: "char \<Rightarrow> bool" where
  "is_digit c = (48 \<le> (of_char c :: nat) \<and> (of_char c :: nat) \<le> 57)"

definition digit_val :: "char \<Rightarrow> nat" where
  "digit_val c = of_char c - 48"

definition digits_val :: "string \<Rightarrow> nat" where
  "digits_val ds = foldl (\<lambda>n c. 10 * n + digit_val c) 0 ds"

definition decimal_prefix :: "string \<Rightarrow> rat option" where
  \<comment> \<open>the longest prefix that is a decimal literal (digits, then a dot and digits; or a dot
      and at least one digit), and its value; \<open>None\<close> when the text starts with no literal\<close>
  "decimal_prefix s =
     (let ip = takeWhile is_digit s;
          rest = dropWhile is_digit s;
          fp = (case rest of [] \<Rightarrow> []
                | c # cs \<Rightarrow> if c = CHR ''.'' then takeWhile is_digit cs else [])
      in if ip = [] \<and> fp = [] then None
         else Some (of_nat (digits_val ip) + of_nat (digits_val fp) / 10 ^ length fp))"

definition parseFloat :: "string \<Rightarrow> jsnum" where
  \<comment> \<open>\<open>parseFloat\<close> on a text of digits and dots, the only texts \<open>parsePrice\<close> gives it:
      no space, sign, exponent or \<open>Infinity\<close> is left to read\<close>
  "parseFloat s = (case decimal_prefix s of None \<Rightarrow> NaN | Some q \<Rightarrow> round_double q)"

definition parsePrice :: "string \<Rightarrow> jsnum" where
  "parsePrice priceStr =
     (if priceStr = [] then PosInf
      else (let numericStr = filter (\<lambda>c. is_digit c \<or> c = CHR ''.'') priceStr;
                price = parseFloat numericStr
            in if price = NaN then PosInf else price))"

fun js_sub :: "jsnum \<Rightarrow> jsnum \<Rightarrow> jsnum" where
  \<comment> \<open>the operator \<open>-\<close> on two numbers\<close>
  "js_sub NaN _ = NaN"
| "js_sub _ NaN = NaN"
| "js_sub PosInf PosInf = NaN"
| "js_sub NegInf NegInf = NaN"
| "js_sub PosInf _ = PosInf"
| "js_sub NegInf _ = NegInf"
| "js_sub (Finite a) PosInf = NegInf"
| "js_sub (Finite a) NegInf = PosInf"
| "js_sub (Finite a) (Finite b) = round_double (a - b)"

fun positive :: "jsnum \<Rightarrow> bool" where
  \<comment> \<open>\<open>v > 0\<close>; false on NaN, which the sort reads as \<open>+0\<close>\<close>
  "positive (Finite q) = (0 < q)"
| "positive PosInf = True"
| "positive NegInf = False"
| "positive NaN = False"

text \<open>
  \<open>Array.prototype.sort\<close> with a comparator is stable, and on a consistent comparator
  every stable sort gives the same list: it is modelled by the stable insertion
  sort. Both comparators of \<open>sortedStores\<close> are consistent: they order the entries by a
  number that is never NaN.
\<close>

fun insert_by :: "('a \<Rightarrow> 'a \<Rightarrow> jsnum) \<Rightarrow> 'a \<Rightarrow> 'a list \<Rightarrow> 'a list" where
  "insert_by cmp x [] = [x]"
| "insert_by cmp x (y # ys) =
     (if positive (cmp x y) then y # insert_by cmp x ys else x # y # ys)"

definition js_sort :: "('a \<Rightarrow> 'a \<Rightarrow> jsnum) \<Rightarrow> 'a list \<Rightarrow> 'a list" where
  "js_sort cmp xs = foldr (insert_by cmp) xs []"

definition sortedStores :: "OnlineStore list option \<Rightarrow> OnlineStoreSortKey \<Rightarrow> OnlineStore list" where
  "sortedStores onlineStores sortKey =
     (case onlineStores of
        None \<Rightarrow> []
      | Some stores \<Rightarrow>
          (case sortKey of
             Price_asc \<Rightarrow> js_sort (\<lambda>a b. js_sub (parsePrice (price a)) (parsePrice (price b))) stores
           | Price_desc \<Rightarrow> js_sort (\<lambda>a b. js_sub (parsePrice (price b)) (parsePrice (price a))) stores
           | Match \<Rightarrow> stores))"

definition numeric_price :: "string \<Rightarrow> bool" where
  \<comment> \<open>the price text, stripped of all but digits and dots, starts with a decimal literal\<close>
  "numeric_price s = (decimal_prefix (filter (\<lambda>c. is_digit c \<or> c = CHR ''.'') s) \<noteq> None)"

section \<open>The orchestrator\<close>

subsection \<open>Data\<close>

datatype AppStep = UPLOAD | PROCESSING | RESULTS | ERROR

datatype ResultView = DETAILS | NEARBY | ONLINE | SIMILAR

record ProductInfo =
  product_name :: string
  product_type :: string
  product_keyFeatures :: "string list"
  product_approximatePrice :: string

record Shop =
  shop_name :: string
  address :: string
  distance :: string
  availabilityScore :: jsnum
  rating :: jsnum

record SimilarProduct =
  similar_name :: string
  similar_imageUrl :: string

record UserLocation =
  latitude :: jsnum
  longitude :: jsnum

record File =
  file_name :: string
  file_type :: string
  file_bytes :: string

text \<open>The results of the gateway, at their declared types.\<close>

record Identified =
  identified_name :: string
  identified_type :: string

record Details =
  keyFeatures :: "string list"
  approximatePrice :: string

record Candidate =
  candidate_name :: string
  candidate_imageUrl :: "string option"

datatype FetchResult =
    FetchFails string
  | Response bool nat string string

text \<open>
  The world outside the component: what each gateway call, the geolocation request, the
  image proxy and \<open>URL.createObjectURL\<close> answer. A gateway call returns a value or null
  (\<open>None\<close>) and never throws; \<open>getCurrentPosition\<close> is \<open>None\<close> when the error callback
  runs. The image generation call of the candidate at position \<open>i\<close> has an answer of its
  own. \<open>Response ok status bytes type\<close> is a response of the proxy and its blob,
  \<open>FetchFails message\<close> a rejected \<open>fetch\<close>.
\<close>

record World =
  identifyProduct :: "File \<Rightarrow> Identified option"
  getCurrentPosition :: "UserLocation option"
  getProductDetails :: "string \<Rightarrow> Details option"
  findNearbyShops :: "string \<Rightarrow> string \<Rightarrow> UserLocation \<Rightarrow> Shop list option"
  findOnlineStores :: "string \<Rightarrow> OnlineStore list option"
  findSimilarProducts :: "string \<Rightarrow> Candidate list option"
  generateProductImage :: "nat \<Rightarrow> string \<Rightarrow> string option"
  createObjectURL :: "File \<Rightarrow> string"
  fetch :: "string \<Rightarrow> FetchResult"

text \<open>The requests a run issues, in their order.\<close>

datatype Call =
    IdentifyProduct File
  | GetCurrentPosition
  | GetProductDetails string
  | FindNearbyShops string string UserLocation
  | FindOnlineStores string
  | FindSimilarProducts string
  | GenerateProductImage string
  | Fetch string

text \<open>The state of the \<open>App\<close> component: one field for each \<open>useState\<close>.\<close>

record App =
  step :: AppStep
  processingMessage :: string
  error :: "string option"
  imageUrl :: "string option"
  productInfo :: "ProductInfo option"
  nearbyShops :: "Shop list option"
  onlineStores :: "OnlineStore list option"
  similarProducts :: "SimilarProduct list option"
  userLocation :: "UserLocation option"
  currentView :: ResultView

definition initial :: App where
  \<comment> \<open>the initial values of the \<open>useState\<close> calls\<close>
  "initial =
     \<lparr>step = UPLOAD, processingMessage = [], error = None, imageUrl = None,
      productInfo = None, nearbyShops = None, onlineStores = None, similarProducts = None,
      userLocation = None, currentView = DETAILS\<rparr>"

subsection \<open>Resets\<close>

definition softReset :: "App \<Rightarrow> App" where
  "softReset s =
     s\<lparr>processingMessage := [], error := None, imageUrl := None, productInfo := None,
       nearbyShops := None, onlineStores := None, similarProducts := None,
       currentView := DETAILS\<rparr>"

definition fullReset :: "App \<Rightarrow> App" where
  "fullReset s = (softReset (s\<lparr>step := UPLOAD\<rparr>))\<lparr>userLocation := None\<rparr>"

subsection \<open>\<open>handleAnalysis\<close>\<close>

definition caught :: "string \<Rightarrow> App \<Rightarrow> App" where
  \<comment> \<open>the \<open>catch\<close> of \<open>handleAnalysis\<close>, on an \<open>Error\<close> with this message\<close>
  "caught msg s =
     s\<lparr>error := Some (if msg = [] then ''An unexpected error occurred.'' else msg),
       step := ERROR\<rparr>"

definition truthy :: "string option \<Rightarrow> bool" where
  \<comment> \<open>a string, null or undefined as a condition\<close>
  "truthy u = (case u of None \<Rightarrow> False | Some v \<Rightarrow> v \<noteq> [])"

definition needs_image :: "Candidate \<Rightarrow> bool" where
  "needs_image p = (\<not> truthy (candidate_imageUrl p))"

definition process_candidate :: "World \<Rightarrow> nat \<times> Candidate \<Rightarrow> string \<times> string option" where
  \<comment> \<open>the function mapped over \<open>rawSimilar\<close>: the name and the image URL of the entry\<close>
  "process_candidate w ip =
     (case ip of (i, p) \<Rightarrow>
        if truthy (candidate_imageUrl p) then (candidate_name p, candidate_imageUrl p)
        else (candidate_name p, generateProductImage w i (candidate_name p)))"

definition processedSimilar :: "World \<Rightarrow> Candidate list \<Rightarrow> (string \<times> string option) list" where
  "processedSimilar w rawSimilar = map (process_candidate w) (enumerate 0 rawSimilar)"

definition image_calls :: "Candidate list \<Rightarrow> Call list" where
  "image_calls rawSimilar =
     map (\<lambda>p. GenerateProductImage (candidate_name p)) (filter needs_image rawSimilar)"

definition shown_similar :: "(string \<times> string option) list \<Rightarrow> SimilarProduct list" where
  \<comment> \<open>\<open>processedSimilar.filter(p => p.imageUrl)\<close>\<close>
  "shown_similar ps =
     map (\<lambda>p. \<lparr>similar_name = fst p, similar_imageUrl = the (snd p)\<rparr>)
       (filter (\<lambda>p. truthy (snd p)) ps)"

definition lookups :: "World \<Rightarrow> Identified \<Rightarrow> UserLocation \<Rightarrow> App \<Rightarrow> Call list \<Rightarrow> App \<times> Call list" where
  \<comment> \<open>from \<open>Finding product details...\<close> to the end of the \<open>try\<close>\<close>
  "lookups w identified location s tr =
     (let productName = identified_name identified;
          productType = identified_type identified;
          s1 = s\<lparr>processingMessage := ''Finding product details...''\<rparr>;
          details = getProductDetails w productName;
          shops = findNearbyShops w productName productType location;
          stores = findOnlineStores w productName;
          rawSimilar = findSimilarProducts w productName;
          tr1 = tr @ [GetProductDetails productName,
                      FindNearbyShops productName productType location,
                      FindOnlineStores productName,
                      FindSimilarProducts productName]
      in case details of
           None \<Rightarrow> (caught ''Could not fetch product details.'' s1, tr1)
         | Some d \<Rightarrow>
             (let s2 = s1\<lparr>productInfo :=
                            Some \<lparr>product_name = productName, product_type = productType,
                                  product_keyFeatures = keyFeatures d,
                                  product_approximatePrice = approximatePrice d\<rparr>,
                          nearbyShops := shops,
                          onlineStores := stores\<rparr>
              in case rawSimilar of
                   Some raw \<Rightarrow>
                     (s2\<lparr>processingMessage := ''Generating product visuals...'',
                         similarProducts := Some (shown_similar (processedSimilar w raw)),
                         step := RESULTS\<rparr>,
                      tr1 @ image_calls raw)
                 | None \<Rightarrow> (s2\<lparr>similarProducts := None, step := RESULTS\<rparr>, tr1)))"

definition enter_processing :: "World \<Rightarrow> File \<Rightarrow> App \<Rightarrow> App" where
  \<comment> \<open>the three statements before the \<open>try\<close>\<close>
  "enter_processing w file s =
     (softReset (s\<lparr>step := PROCESSING\<rparr>))\<lparr>imageUrl := Some (createObjectURL w file)\<rparr>"

definition handleAnalysis :: "World \<Rightarrow> File \<Rightarrow> App \<Rightarrow> App \<times> Call list" where
  \<comment> \<open>\<open>userLocation\<close> is read in the state the handler was called in\<close>
  "handleAnalysis w file s0 =
     (let s1 = (enter_processing w file s0)\<lparr>processingMessage := ''Identifying product...''\<rparr>
      in case identifyProduct w file of
           None \<Rightarrow>
             (caught ''Could not identify the product from the image.'' s1,
              [IdentifyProduct file])
         | Some identified \<Rightarrow>
             (case userLocation s0 of
                Some location \<Rightarrow> lookups w identified location s1 [IdentifyProduct file]
              | None \<Rightarrow>
                  (let s2 = s1\<lparr>processingMessage := ''Getting your location...''\<rparr>
                   in case getCurrentPosition w of
                        None \<Rightarrow>
                          (caught ''Geolocation permission denied or unavailable.'' s2,
                           [IdentifyProduct file, GetCurrentPosition])
                      | Some location \<Rightarrow>
                          lookups w identified location (s2\<lparr>userLocation := Some location\<rparr>)
                            [IdentifyProduct file, GetCurrentPosition])))"

subsection \<open>\<open>handleSimilarProductAnalysis\<close>\<close>

fun show_nat :: "nat \<Rightarrow> string" where
  \<comment> \<open>a number in a template literal\<close>
  "show_nat n =
     (if n < 10 then [char_of (48 + n)] else show_nat (n div 10) @ [char_of (48 + n mod 10)])"

declare show_nat.simps [simp del]

definition caught_similar :: "string \<Rightarrow> App \<Rightarrow> App" where
  "caught_similar msg s =
     s\<lparr>error := Some (''Could not analyze similar product. The image may be protected or inaccessible. Details: '' @ msg),
       step := ERROR\<rparr>"

definition handleSimilarProductAnalysis :: "World \<Rightarrow> SimilarProduct \<Rightarrow> App \<Rightarrow> App \<times> Call list" where
  "handleSimilarProductAnalysis w product s0 =
     (let s1 = s0\<lparr>step := PROCESSING,
                  processingMessage :=
                    ''Finding '' @ [CHR 0x22] @ similar_name product @ [CHR 0x22] @ ''...''\<rparr>;
          proxyUrl = ''https://cors-anywhere.herokuapp.com/'' @ similar_imageUrl product
      in case fetch w proxyUrl of
           FetchFails msg \<Rightarrow> (caught_similar msg s1, [Fetch proxyUrl])
         | Response ok status bytes type \<Rightarrow>
             if \<not> ok
             then (caught_similar (''Failed to fetch image. Status: '' @ show_nat status) s1,
                   [Fetch proxyUrl])
             else (let fileName = map (\<lambda>c. if is_space c then CHR ''_'' else c)
                                    (similar_name product) @ ''.jpg'';
                       file = \<lparr>file_name = fileName, file_type = type, file_bytes = bytes\<rparr>;
                       r = handleAnalysis w file s1
                   in (fst r, Fetch proxyUrl # snd r)))"

definition downstream :: "Call \<Rightarrow> bool" where
  \<comment> \<open>the four lookups of the \<open>Promise.all\<close>\<close>
  "downstream c =
     (case c of
        GetProductDetails n \<Rightarrow> True
      | FindNearbyShops n t l \<Rightarrow> True
      | FindOnlineStores n \<Rightarrow> True
      | FindSimilarProducts n \<Rightarrow> True
      | _ \<Rightarrow> False)"

section \<open>An instance of \<open>JSON.parse\<close>\<close>

text \<open>
  A parser of the JSON grammar, to run the extractor on concrete texts: the properties
  below hold for every \<open>jp\<close>, and this is the one they are run with. The nesting of
  arrays and objects is counted down on a fuel, twice the length of the text and two; a
  number is rounded to a double, and of the members of an object with the same key the
  last one stays, at the place of the first.
\<close>

definition json_space :: "char \<Rightarrow> bool" where
  \<comment> \<open>the white space of JSON: tab, line feed, carriage return, space\<close>
  "json_space c = (of_char c \<in> {9, 10, 13, 32 :: nat})"

definition hex_val :: "char \<Rightarrow> nat option" where
  "hex_val c =
     (let n = (of_char c :: nat)
      in if 48 \<le> n \<and> n \<le> 57 then Some (n - 48)
         else if 65 \<le> n \<and> n \<le> 70 then Some (n - 55)
         else if 97 \<le> n \<and> n \<le> 102 then Some (n - 87)
         else None)"

definition hex4 :: "string \<Rightarrow> nat option" where
  "hex4 s =
     (case map hex_val s of
        [Some a, Some b, Some c, Some d] \<Rightarrow> Some (((a * 16 + b) * 16 + c) * 16 + d)
      | _ \<Rightarrow> None)"

definition escape_val :: "char \<Rightarrow> nat option" where
  \<comment> \<open>the code unit of a one-letter escape\<close>
  "escape_val c =
     (if c = CHR 0x22 then Some 34
      else if c = CHR 0x5C then Some 92
      else if c = CHR ''/'' then Some 47
      else if c = CHR ''b'' then Some 8
      else if c = CHR ''f'' then Some 12
      else if c = CHR ''n'' then Some 10
      else if c = CHR ''r'' then Some 13
      else if c = CHR ''t'' then Some 9
      else None)"

fun parse_string :: "string \<Rightarrow> (nat list \<times> string) option" where
  \<comment> \<open>the text after the opening quote: the code units of the string and the rest\<close>
  "parse_string [] = None"
| "parse_string (c # cs) =
     (if c = CHR 0x22 then Some ([], cs)
      else if c = CHR 0x5C then
        (case cs of
           [] \<Rightarrow> None
         | e # r \<Rightarrow>
             if e = CHR ''u'' then
               (case hex4 (take 4 r) of
                  None \<Rightarrow> None
                | Some n \<Rightarrow> map_option (apfst ((#) n)) (parse_string (drop 4 r)))
             else
               (case escape_val e of
                  None \<Rightarrow> None
                | Some n \<Rightarrow> map_option (apfst ((#) n)) (parse_string r)))
      else if (of_char c :: nat) < 32 then None
      else map_option (apfst ((#) (of_char c))) (parse_string cs))"

definition parse_number :: "string \<Rightarrow> (jsnum \<times> string) option" where
  \<comment> \<open>\<open>-? (0 | [1-9][0-9]*) (. [0-9]+)? ([eE] [+-]? [0-9]+)?\<close>\<close>
  "parse_number s =
     (let neg = prefix ''-'' s;
          s1 = (if neg then drop 1 s else s);
          ip = (if prefix ''0'' s1 then ''0'' else takeWhile is_digit s1);
          s2 = drop (length ip) s1;
          has_frac = prefix ''.'' s2;
          fp = (if has_frac then takeWhile is_digit (drop 1 s2) else []);
          s3 = (if has_frac then drop (Suc (length fp)) s2 else s2);
          has_exp = (prefix ''e'' s3 \<or> prefix ''E'' s3);
          s4 = drop 1 s3;
          eneg = prefix ''-'' s4;
          s5 = (if prefix ''-'' s4 \<or> prefix ''+'' s4 then drop 1 s4 else s4);
          ep = (if has_exp then takeWhile is_digit s5 else []);
          s6 = (if has_exp then drop (length ep) s5 else s3);
          mant = of_nat (digits_val ip) + of_nat (digits_val fp) / 10 ^ length fp;
          scaled = (if eneg then mant / 10 ^ digits_val ep else mant * 10 ^ digits_val ep);
          v = (if neg then - scaled else scaled)
      in if ip = [] \<or> (has_frac \<and> fp = []) \<or> (has_exp \<and> ep = []) then None
         else Some (round_double v, s6))"

fun put_member :: "nat list \<Rightarrow> json \<Rightarrow> (nat list \<times> json) list \<Rightarrow> (nat list \<times> json) list" where
  \<comment> \<open>the value of a key that is there is replaced, a new key comes last\<close>
  "put_member k v [] = [(k, v)]"
| "put_member k v (m # ms) =
     (if fst m = k then (k, v) # ms else m # put_member k v ms)"

definition object_of :: "(nat list \<times> json) list \<Rightarrow> json" where
  \<comment> \<open>the object of the members of the text, put in one after the other\<close>
  "object_of ms = JObj (foldl (\<lambda>acc m. put_member (fst m) (snd m) acc) [] ms)"

fun parse_value :: "nat \<Rightarrow> string \<Rightarrow> (json \<times> string) option"
  and parse_elements :: "nat \<Rightarrow> string \<Rightarrow> (json list \<times> string) option"
  and parse_members :: "nat \<Rightarrow> string \<Rightarrow> ((nat list \<times> json) list \<times> string) option" where
  "parse_value 0 s = None"
| "parse_value (Suc n) s =
     (let t = dropWhile json_space s
      in if prefix ''null'' t then Some (JNull, drop 4 t)
         else if prefix ''true'' t then Some (JBool True, drop 4 t)
         else if prefix ''false'' t then Some (JBool False, drop 5 t)
         else if prefix [CHR 0x22] t then map_option (apfst JStr) (parse_string (drop 1 t))
         else if prefix ''['' t then
           (if prefix '']'' (dropWhile json_space (drop 1 t))
            then Some (JArr [], drop 1 (dropWhile json_space (drop 1 t)))
            else map_option (apfst JArr) (parse_elements n (drop 1 t)))
         else if prefix ''{'' t then
           (if prefix ''}'' (dropWhile json_space (drop 1 t))
            then Some (JObj [], drop 1 (dropWhile json_space (drop 1 t)))
            else map_option (apfst object_of) (parse_members n (drop 1 t)))
         else map_option (apfst JNum) (parse_number t))"
| "parse_elements 0 s = None"
| "parse_elements (Suc n) s =
     (case parse_value n s of
        None \<Rightarrow> None
      | Some (v, r) \<Rightarrow>
          (let t = dropWhile json_space r
           in if prefix '','' t then map_option (apfst ((#) v)) (parse_elements n (drop 1 t))
              else if prefix '']'' t then Some ([v], drop 1 t)
              else None))"
| "parse_members 0 s = None"
| "parse_members (Suc n) s =
     (let t = dropWhile json_space s
      in if \<not> prefix [CHR 0x22] t then None
         else (case parse_string (drop 1 t) of
                 None \<Rightarrow> None
               | Some (k, r) \<Rightarrow>
                   (let t1 = dropWhile json_space r
                    in if \<not> prefix '':'' t1 then None
                       else (case parse_value n (drop 1 t1) of
                               None \<Rightarrow> None
                             | Some (v, r1) \<Rightarrow>
                                 (let t2 = dropWhile json_space r1
                                  in if prefix '','' t2
                                     then map_option (apfst ((#) (k, v))) (parse_members n (drop 1 t2))
                                     else if prefix ''}'' t2 then Some ([(k, v)], drop 1 t2)
                                     else None)))))"

definition json_parse :: "string \<Rightarrow> json option" where
  \<comment> \<open>one value between white space, and nothing after it\<close>
  "json_parse s =
     (case parse_value (2 * length s + 2) s of
        None \<Rightarrow> None
      | Some (v, r) \<Rightarrow> if dropWhile json_space r = [] then Some v else None)"

section \<open>The similar products of the specification\<close>

text \<open>
  The list the results are to show, in the words of the specification: an entry keeps the
  image URL it came with, an entry without one takes the generated image, and an entry
  that ends with no image is dropped.
\<close>

definition final_image :: "World \<Rightarrow> nat \<Rightarrow> Candidate \<Rightarrow> string option" where
  "final_image w i p =
     (case candidate_imageUrl p of
        Some u \<Rightarrow> if u \<noteq> [] then Some u else generateProductImage w i (candidate_name p)
      | None \<Rightarrow> generateProductImage w i (candidate_name p))"

fun spec_similar :: "World \<Rightarrow> nat \<Rightarrow> Candidate list \<Rightarrow> SimilarProduct list" where
  "spec_similar w i [] = []"
| "spec_similar w i (p # ps) =
     (case final_image w i p of
        None \<Rightarrow> spec_similar w (Suc i) ps
      | Some u \<Rightarrow>
          if u = [] then spec_similar w (Suc i) ps
          else \<lparr>similar_name = candidate_name p, similar_imageUrl = u\<rparr> # spec_similar w (Suc i) ps)"

section \<open>Concrete runs\<close>

definition photo :: File where
  "photo = \<lparr>file_name = ''photo.jpg'', file_type = ''image/jpeg'', file_bytes = ''...''\<rparr>"

definition here :: UserLocation where
  "here = \<lparr>latitude = Finite 48, longitude = Finite 2\<rparr>"

definition lamp :: Identified where
  "lamp = \<lparr>identified_name = ''Desk lamp'', identified_type = ''Lighting''\<rparr>"

definition candidates :: "Candidate list" where
  "candidates =
     [\<lparr>candidate_name = ''Floor lamp'', candidate_imageUrl = Some ''https://img.example/floor.jpg''\<rparr>,
      \<lparr>candidate_name = ''Wall lamp'', candidate_imageUrl = None\<rparr>,
      \<lparr>candidate_name = ''Clip lamp'', candidate_imageUrl = None\<rparr>,
      \<lparr>candidate_name = ''Reading lamp'', candidate_imageUrl = Some []\<rparr>]"

definition silent_world :: World where
  \<comment> \<open>every gateway call answers null, the geolocation is refused, the proxy is down\<close>
  "silent_world =
     \<lparr>identifyProduct = (\<lambda>f. None), getCurrentPosition = None,
      getProductDetails = (\<lambda>n. None), findNearbyShops = (\<lambda>n t l. None),
      findOnlineStores = (\<lambda>n. None), findSimilarProducts = (\<lambda>n. None),
      generateProductImage = (\<lambda>i n. None),
      createObjectURL = (\<lambda>f. ''blob:'' @ file_name f),
      fetch = (\<lambda>u. FetchFails ''Failed to fetch'')\<rparr>"

definition lamp_world :: World where
  \<comment> \<open>every call answers; the image of the candidate at position 2 cannot be generated\<close>
  "lamp_world =
     \<lparr>identifyProduct = (\<lambda>f. Some lamp), getCurrentPosition = Some here,
      getProductDetails = (\<lambda>n. Some \<lparr>keyFeatures = [''LED''], approximatePrice = ''$20 - $30''\<rparr>),
      findNearbyShops = (\<lambda>n t l. Some []),
      findOnlineStores = (\<lambda>n. Some []),
      findSimilarProducts = (\<lambda>n. Some candidates),
      generateProductImage = (\<lambda>i n. if i = 2 then None else Some (''data:image/jpeg;base64,'' @ n)),
      createObjectURL = (\<lambda>f. ''blob:'' @ file_name f),
      fetch = (\<lambda>u. Response True 200 ''...'' ''image/jpeg'')\<rparr>"

definition no_details_world :: World where
  \<comment> \<open>as \<open>lamp_world\<close>, but the details lookup answers null\<close>
  "no_details_world = lamp_world\<lparr>getProductDetails := (\<lambda>n. None)\<rparr>"

definition shown :: App where
  \<comment> \<open>a state in \<open>RESULTS\<close>, with a cached location\<close>
  "shown =
     \<lparr>step = RESULTS, processingMessage = ''Generating product visuals...'', error = None,
      imageUrl = Some ''blob:photo.jpg'',
      productInfo = Some \<lparr>product_name = ''Desk lamp'', product_type = ''Lighting'',
                          product_keyFeatures = [''LED''], product_approximatePrice = ''$20 - $30''\<rparr>,
      nearbyShops = Some [], onlineStores = Some [],
      similarProducts = Some [\<lparr>similar_name = ''Floor lamp'',
                               similar_imageUrl = ''https://img.example/floor.jpg''\<rparr>],
      userLocation = Some here, currentView = SIMILAR\<rparr>"

section \<open>Names for the statements on the price sort\<close>

definition unpriced :: "OnlineStore \<Rightarrow> bool" where
  \<comment> \<open>the parsed price of the entry is \<open>Infinity\<close>\<close>
  "unpriced a = (parsePrice (price a) = PosInf)"

definition by_price_asc :: "OnlineStore \<Rightarrow> OnlineStore \<Rightarrow> jsnum" where
  \<comment> \<open>the comparator of \<open>price_asc\<close>\<close>
  "by_price_asc a b = js_sub (parsePrice (price a)) (parsePrice (price b))"

definition by_price_desc :: "OnlineStore \<Rightarrow> OnlineStore \<Rightarrow> jsnum" where
  \<comment> \<open>the comparator of \<open>price_desc\<close>\<close>
  "by_price_desc a b = js_sub (parsePrice (price b)) (parsePrice (price a))"

definition store_at :: "string \<Rightarrow> OnlineStore" where
  \<comment> \<open>an entry with this price text\<close>
  "store_at p = \<lparr>platform = ''Shop'', price = p, stockStatus = ''In Stock'', url = ''https://shop.example''\<rparr>"

definition price_char :: "char \<Rightarrow> bool" where
  \<comment> \<open>a digit or a dot: what \<open>/[^0-9.]/g\<close> leaves\<close>
  "price_char c = (is_digit c \<or> c = CHR ''.'')"

definition stripped :: "string \<Rightarrow> string" where
  \<comment> \<open>the price text without its other characters\<close>
  "stripped s = filter price_char s"

definition decimal_of :: "string \<Rightarrow> nat" where
  \<comment> \<open>the number a string of digits writes in base ten: the digit at position \<open>i\<close> counts
      \<open>10\<close> to the number of digits after it\<close>
  "decimal_of ds = (\<Sum>i<length ds. digit_val (ds ! i) * 10 ^ (length ds - Suc i))"

definition decimal_value :: "string \<Rightarrow> string \<Rightarrow> rat" where
  \<comment> \<open>the number written by the digits \<open>ip\<close>, a dot, and the digits \<open>fp\<close>\<close>
  "decimal_value ip fp = of_nat (decimal_of ip) + of_nat (decimal_of fp) / 10 ^ length fp"

section \<open>Names for the statements on the extractor\<close>

definition has_fenced_block :: "string \<Rightarrow> bool" where
  \<comment> \<open>an opening fence and, after it, a closing fence\<close>
  "has_fenced_block s =
     (\<exists>i<length s. \<exists>j<length s.
        i + 3 \<le> j \<and> prefix fence (drop i s) \<and> prefix fence (drop j s))"

definition is_opener :: "char \<Rightarrow> bool" where
  "is_opener c = (c = CHR ''{'' \<or> c = CHR ''['')"

definition is_closer :: "char \<Rightarrow> bool" where
  "is_closer c = (c = CHR ''}'' \<or> c = CHR '']'')"

definition first_opener :: "string \<Rightarrow> nat" where
  \<comment> \<open>the position of the first opener, in a text that has one\<close>
  "first_opener s = length (takeWhile (\<lambda>c. \<not> is_opener c) s)"

definition last_closer :: "string \<Rightarrow> nat" where
  \<comment> \<open>the position of the last closer, in a text that has one\<close>
  "last_closer s = length s - 1 - length (takeWhile (\<lambda>c. \<not> is_closer c) (rev s))"

definition bracket_span :: "string \<Rightarrow> string" where
  \<comment> \<open>the text from the first opener to the last closer, both included; empty when the
      last closer comes before the first opener\<close>
  "bracket_span s = take (Suc (last_closer s) - first_opener s) (drop (first_opener s) s)"

definition candidate :: "string \<Rightarrow> string option" where
  \<comment> \<open>the text \<open>parseJsonResponse\<close> hands to \<open>JSON.parse\<close>, if it gets that far\<close>
  "candidate text =
     (if regex_match text \<noteq> None \<and> regex_match text \<noteq> Some [] then regex_match text
      else if \<not> (\<exists>c \<in> set text. is_opener c) \<or> \<not> (\<exists>c \<in> set text. is_closer c) then None
      else Some (substring text (int (first_opener text)) (int (last_closer text) + 1)))"

definition no_fence_before :: "nat \<Rightarrow> string \<Rightarrow> bool" where
  \<comment> \<open>no fence starts at a position below \<open>n\<close>\<close>
  "no_fence_before n s = (\<forall>i<n. \<not> prefix fence (drop i s))"

section \<open>Properties of the orchestrator\<close>

lemma downstream_simps [simp]:
  "downstream (IdentifyProduct f) = False"
  "downstream GetCurrentPosition = False"
  "downstream (GetProductDetails n) = True"
  "downstream (FindNearbyShops n t l) = True"
  "downstream (FindOnlineStores n) = True"
  "downstream (FindSimilarProducts n) = True"
  "downstream (GenerateProductImage n) = False"
  "downstream (Fetch u) = False"
  by (simp_all add: downstream_def)

text \<open>
  C4. When \<open>identifyProduct\<close> returns null, \<open>handleAnalysis\<close> ends in the \<open>ERROR\<close> step
  with the message of the failed identification; the only request of the run is the
  identification itself, so none of the four lookups is issued and the geolocation is not
  asked for.
\<close>

theorem identify_null_halts:
  assumes "identifyProduct w file = None"
  shows "step (fst (handleAnalysis w file s)) = ERROR
       \<and> error (fst (handleAnalysis w file s)) = Some ''Could not identify the product from the image.''
       \<and> snd (handleAnalysis w file s) = [IdentifyProduct file]
       \<and> (\<forall>c \<in> set (snd (handleAnalysis w file s)). \<not> downstream c \<and> c \<noteq> GetCurrentPosition)"
  using assms by (simp add: handleAnalysis_def caught_def Let_def)

theorem identify_null_halts_witness:
  "identifyProduct silent_world photo = None
   \<and> step (fst (handleAnalysis silent_world photo initial)) = ERROR
   \<and> snd (handleAnalysis silent_world photo initial) = [IdentifyProduct photo]"
proof -
  have h: "identifyProduct silent_world photo = None"
    by (simp add: silent_world_def)
  from identify_null_halts [OF h, of initial] h show ?thesis by simp
qed

text \<open>
  C5. In a run of \<open>handleAnalysis\<close> that reaches the four lookups (the product is
  identified and a location is cached or obtained), a null \<open>getProductDetails\<close> ends the
  run in the \<open>ERROR\<close> step, whatever the other three lookups returned: nothing of them is
  stored.
\<close>

theorem details_null_is_error:
  assumes "identifyProduct w file = Some identified"
    and "userLocation s = Some location \<or> (userLocation s = None \<and> getCurrentPosition w = Some location)"
    and "getProductDetails w (identified_name identified) = None"
  shows "step (fst (handleAnalysis w file s)) = ERROR
       \<and> error (fst (handleAnalysis w file s)) = Some ''Could not fetch product details.''
       \<and> productInfo (fst (handleAnalysis w file s)) = None
       \<and> nearbyShops (fst (handleAnalysis w file s)) = None
       \<and> onlineStores (fst (handleAnalysis w file s)) = None
       \<and> similarProducts (fst (handleAnalysis w file s)) = None
       \<and> GetProductDetails (identified_name identified) \<in> set (snd (handleAnalysis w file s))"
  using assms
  by (auto simp add: handleAnalysis_def lookups_def caught_def enter_processing_def softReset_def Let_def)

theorem details_null_is_error_witness:
  "identifyProduct no_details_world photo = Some lamp
   \<and> getCurrentPosition no_details_world = Some here
   \<and> getProductDetails no_details_world (identified_name lamp) = None
   \<and> findNearbyShops no_details_world (identified_name lamp) (identified_type lamp) here \<noteq> None
   \<and> findOnlineStores no_details_world (identified_name lamp) \<noteq> None
   \<and> findSimilarProducts no_details_world (identified_name lamp) \<noteq> None
   \<and> step (fst (handleAnalysis no_details_world photo initial)) = ERROR"
proof -
  have a: "identifyProduct no_details_world photo = Some lamp"
    by (simp add: no_details_world_def lamp_world_def)
  have b: "userLocation initial = Some here
           \<or> (userLocation initial = None \<and> getCurrentPosition no_details_world = Some here)"
    by (simp add: no_details_world_def lamp_world_def initial_def)
  have c: "getProductDetails no_details_world (identified_name lamp) = None"
    by (simp add: no_details_world_def)
  from details_null_is_error [OF a b c] a c show ?thesis
    by (simp add: no_details_world_def lamp_world_def)
qed

lemma shown_similar_Cons:
  "shown_similar ((n, u) # ps) =
     (if truthy u then \<lparr>similar_name = n, similar_imageUrl = the u\<rparr> # shown_similar ps
      else shown_similar ps)"
  by (simp add: shown_similar_def)

lemma process_candidate_pair:
  "process_candidate w (i, p) =
     (if truthy (candidate_imageUrl p) then (candidate_name p, candidate_imageUrl p)
      else (candidate_name p, generateProductImage w i (candidate_name p)))"
  by (simp add: process_candidate_def)

lemma processed_is_spec:
  "shown_similar (map (process_candidate w) (enumerate i raw)) = spec_similar w i raw"
proof (induction raw arbitrary: i)
  case Nil
  show ?case by (simp add: shown_similar_def)
next
  case (Cons p ps)
  show ?case
    by (cases "candidate_imageUrl p"; cases "generateProductImage w i (candidate_name p)")
       (simp_all add: process_candidate_pair shown_similar_Cons truthy_def final_image_def Cons.IH)
qed

lemma spec_similar_nonempty:
  "p \<in> set (spec_similar w i raw) \<Longrightarrow> similar_imageUrl p \<noteq> []"
  by (induction raw arbitrary: i) (auto split: option.splits if_splits)

text \<open>
  C6. In a run that reaches the results with a non-null list of similar products, the list
  stored is the list of the specification: the entries that end with a non-empty image URL,
  in their order, the supplied URL kept, a missing one generated, the others dropped.
\<close>

theorem similar_products_shown:
  assumes "identifyProduct w file = Some identified"
    and "userLocation s \<noteq> None \<or> getCurrentPosition w \<noteq> None"
    and "getProductDetails w (identified_name identified) \<noteq> None"
    and "findSimilarProducts w (identified_name identified) = Some raw"
  shows "step (fst (handleAnalysis w file s)) = RESULTS
       \<and> similarProducts (fst (handleAnalysis w file s)) = Some (spec_similar w 0 raw)
       \<and> (\<forall>p \<in> set (spec_similar w 0 raw). similar_imageUrl p \<noteq> [])"
  using assms
  by (auto simp add: handleAnalysis_def lookups_def Let_def processedSimilar_def
        processed_is_spec spec_similar_nonempty split: option.splits)


theorem similar_products_shown_witness:
  "identifyProduct lamp_world photo = Some lamp
   \<and> findSimilarProducts lamp_world (identified_name lamp) = Some candidates
   \<and> step (fst (handleAnalysis lamp_world photo initial)) = RESULTS
   \<and> similarProducts (fst (handleAnalysis lamp_world photo initial)) =
       Some [\<lparr>similar_name = ''Floor lamp'', similar_imageUrl = ''https://img.example/floor.jpg''\<rparr>,
             \<lparr>similar_name = ''Wall lamp'', similar_imageUrl = ''data:image/jpeg;base64,Wall lamp''\<rparr>,
             \<lparr>similar_name = ''Reading lamp'', similar_imageUrl = ''data:image/jpeg;base64,Reading lamp''\<rparr>]"
proof -
  have a: "identifyProduct lamp_world photo = Some lamp"
    by (simp add: lamp_world_def)
  have b: "userLocation initial \<noteq> None \<or> getCurrentPosition lamp_world \<noteq> None"
    by (simp add: lamp_world_def)
  have c: "getProductDetails lamp_world (identified_name lamp) \<noteq> None"
    by (simp add: lamp_world_def)
  have d: "findSimilarProducts lamp_world (identified_name lamp) = Some candidates"
    by (simp add: lamp_world_def)
  have e: "spec_similar lamp_world 0 candidates =
       [\<lparr>similar_name = ''Floor lamp'', similar_imageUrl = ''https://img.example/floor.jpg''\<rparr>,
        \<lparr>similar_name = ''Wall lamp'', similar_imageUrl = ''data:image/jpeg;base64,Wall lamp''\<rparr>,
        \<lparr>similar_name = ''Reading lamp'', similar_imageUrl = ''data:image/jpeg;base64,Reading lamp''\<rparr>]"
    by (simp add: lamp_world_def candidates_def final_image_def)
  from similar_products_shown [OF a b c d] a d e show ?thesis by simp
qed

lemma lookups_location:
  "userLocation (fst (lookups w identified location s tr)) = userLocation s"
  by (simp add: lookups_def caught_def Let_def split: option.splits)

lemma handleAnalysis_keeps_location:
  "userLocation s = Some l \<Longrightarrow> userLocation (fst (handleAnalysis w file s)) = Some l"
  by (simp add: handleAnalysis_def lookups_location caught_def enter_processing_def
        softReset_def Let_def split: option.splits)


text \<open>
  C9. The full reset gives the initial state: the \<open>UPLOAD\<close> step, no cached location.
  The soft reset clears the state of the last analysis and leaves the step and the cached
  location as they are. \<open>handleAnalysis\<close> enters \<open>PROCESSING\<close> through the soft reset,
  so its run depends on the state before it through the cached location alone, and a cached
  location is still cached after it. The find-similar action with a fetched image is such
  a run, and with or without one it leaves a cached location cached.
\<close>

theorem resets:
  "fullReset s = initial
   \<and> step (softReset s) = step s
   \<and> userLocation (softReset s) = userLocation s
   \<and> productInfo (softReset s) = None \<and> nearbyShops (softReset s) = None
   \<and> onlineStores (softReset s) = None \<and> similarProducts (softReset s) = None
   \<and> imageUrl (softReset s) = None \<and> error (softReset s) = None
   \<and> enter_processing w file s =
       (softReset s)\<lparr>step := PROCESSING, imageUrl := Some (createObjectURL w file)\<rparr>
   \<and> handleAnalysis w file s = handleAnalysis w file (initial\<lparr>userLocation := userLocation s\<rparr>)
   \<and> (userLocation s = Some l \<longrightarrow> userLocation (fst (handleAnalysis w file s)) = Some l)
   \<and> (fetch w (''https://cors-anywhere.herokuapp.com/'' @ similar_imageUrl product)
         = Response True status bytes type \<longrightarrow>
       fst (handleSimilarProductAnalysis w product s) =
       fst (handleAnalysis w
             \<lparr>file_name = map (\<lambda>c. if is_space c then CHR ''_'' else c) (similar_name product) @ ''.jpg'',
              file_type = type, file_bytes = bytes\<rparr>
             (s\<lparr>step := PROCESSING,
                processingMessage := ''Finding '' @ [CHR 0x22] @ similar_name product @ [CHR 0x22] @ ''...''\<rparr>)))
   \<and> (userLocation s = Some l \<longrightarrow>
       userLocation (fst (handleSimilarProductAnalysis w product s)) = Some l)"
proof -
  have 1: "fullReset s = initial"
    by (simp add: fullReset_def softReset_def initial_def)
  have 2: "enter_processing w file s =
       (softReset s)\<lparr>step := PROCESSING, imageUrl := Some (createObjectURL w file)\<rparr>"
    by (simp add: enter_processing_def softReset_def)
  have 3: "userLocation s = Some l \<longrightarrow>
       userLocation (fst (handleSimilarProductAnalysis w product s)) = Some l"
    by (auto simp add: handleSimilarProductAnalysis_def caught_similar_def Let_def
          handleAnalysis_keeps_location split: FetchResult.splits)
  have 4: "fetch w (''https://cors-anywhere.herokuapp.com/'' @ similar_imageUrl product)
         = Response True status bytes type \<longrightarrow>
       fst (handleSimilarProductAnalysis w product s) =
       fst (handleAnalysis w
             \<lparr>file_name = map (\<lambda>c. if is_space c then CHR ''_'' else c) (similar_name product) @ ''.jpg'',
              file_type = type, file_bytes = bytes\<rparr>
             (s\<lparr>step := PROCESSING,
                processingMessage := ''Finding '' @ [CHR 0x22] @ similar_name product @ [CHR 0x22] @ ''...''\<rparr>))"
    by (simp add: handleSimilarProductAnalysis_def Let_def)
  have 5: "handleAnalysis w file s = handleAnalysis w file (initial\<lparr>userLocation := userLocation s\<rparr>)"
  proof -
    have e: "enter_processing w file (initial\<lparr>userLocation := userLocation s\<rparr>) =
             enter_processing w file s"
      by (cases s) (simp add: enter_processing_def softReset_def initial_def)
    show ?thesis
      by (simp add: handleAnalysis_def e Let_def split: option.splits)
  qed
  show ?thesis
    using 1 2 3 4 5 by (simp add: softReset_def handleAnalysis_keeps_location)
qed

theorem resets_witness:
  "userLocation shown = Some here
   \<and> fetch lamp_world (''https://cors-anywhere.herokuapp.com/'' @ similar_imageUrl
          \<lparr>similar_name = ''Floor lamp'', similar_imageUrl = ''https://img.example/floor.jpg''\<rparr>)
       = Response True 200 ''...'' ''image/jpeg''
   \<and> fullReset shown = initial
   \<and> productInfo (softReset shown) = None
   \<and> userLocation (softReset shown) = Some here
   \<and> userLocation (fst (handleAnalysis lamp_world photo shown)) = Some here
   \<and> userLocation (fst (handleSimilarProductAnalysis lamp_world
          \<lparr>similar_name = ''Floor lamp'', similar_imageUrl = ''https://img.example/floor.jpg''\<rparr>
          shown)) = Some here"
proof -
  have a: "userLocation shown = Some here"
    by (simp add: shown_def)
  have b: "fetch lamp_world (''https://cors-anywhere.herokuapp.com/'' @ similar_imageUrl
          \<lparr>similar_name = ''Floor lamp'', similar_imageUrl = ''https://img.example/floor.jpg''\<rparr>)
       = Response True 200 ''...'' ''image/jpeg''"
    by (simp add: lamp_world_def)
  note r = resets [of shown lamp_world photo here
      "\<lparr>similar_name = ''Floor lamp'', similar_imageUrl = ''https://img.example/floor.jpg''\<rparr>"
      200 "''...''" "''image/jpeg''"]
  have 1: "fullReset shown = initial"
    using r by blast
  have 2: "productInfo (softReset shown) = None"
    using r by blast
  have 3: "userLocation (softReset shown) = Some here"
    using r a by simp
  have 4: "userLocation (fst (handleAnalysis lamp_world photo shown)) = Some here"
    using r a by blast
  have 5: "userLocation (fst (handleSimilarProductAnalysis lamp_world
          \<lparr>similar_name = ''Floor lamp'', similar_imageUrl = ''https://img.example/floor.jpg''\<rparr>
          shown)) = Some here"
    using r a by blast
  from a b 1 2 3 4 5 show ?thesis by blast
qed

section \<open>Properties of the price parsing and the price sort\<close>

subsection \<open>Rounding to a double\<close>

lemma pow2_powi: "pow2 e = 2 powi e"
  by (simp add: pow2_def power_int_def power_one_over [symmetric] inverse_eq_divide)

lemma pow2_pos: "0 < pow2 e"
  by (simp add: pow2_powi)

lemma pow2_add: "pow2 (a + b) = pow2 a * pow2 b"
  by (simp add: pow2_powi power_int_add)

lemma pow2_mono: "a \<le> b \<Longrightarrow> pow2 a \<le> pow2 b"
  by (simp add: pow2_powi power_int_increasing)

lemma pow2_less_exp: "pow2 a < pow2 b \<Longrightarrow> a < b"
  using pow2_mono [of b a] by (cases "a < b") auto

lemma pow2_nat: "pow2 (int n) = 2 ^ n"
  by (simp add: pow2_def)

lemma pow2_neg_nat: "pow2 (- int n) = 1 / 2 ^ n"
  by (simp add: pow2_powi power_int_minus field_simps)

lemma ilog2_bounds: "0 < n \<Longrightarrow> 2 ^ ilog2 n \<le> n \<and> n < 2 ^ Suc (ilog2 n)"
proof (induction n rule: ilog2.induct)
  case (1 n)
  show ?case
  proof (cases "n < 2")
    case True
    with 1(2) show ?thesis
      by (simp add: ilog2.simps [of n])
  next
    case False
    then have "0 < n div 2" by simp
    with 1(1) False have ih: "2 ^ ilog2 (n div 2) \<le> n div 2" "n div 2 < 2 ^ Suc (ilog2 (n div 2))"
      by simp_all
    have eq: "ilog2 n = Suc (ilog2 (n div 2))"
      using False by (simp add: ilog2.simps [of n])
    from ih(1) have "2 * 2 ^ ilog2 (n div 2) \<le> n" by linarith
    moreover from ih(2) have "n < 2 * 2 ^ Suc (ilog2 (n div 2))" by linarith
    ultimately show ?thesis
      by (simp add: eq)
  qed
qed

lemma round_half_even_floor: "\<lfloor>q\<rfloor> \<le> round_half_even q"
  by (simp add: round_half_even_def Let_def)

lemma round_double_overflow:
  assumes "2 ^ 1024 \<le> q"
  shows "round_double q = PosInf"
proof -
  let ?n = "nat \<lfloor>q\<rfloor>"
  let ?k = "ilog2 ?n"
  have "(1::rat) \<le> 2 ^ 1024"
    by simp
  with assms have q1: "1 \<le> q" and q0: "0 < q"
    by linarith+
  have "(2::int) ^ 1024 \<le> \<lfloor>q\<rfloor>"
    using assms by (simp add: le_floor_iff)
  then have n: "2 ^ 1024 \<le> ?n"
    by (simp add: le_nat_iff)
  then have n0: "0 < ?n"
    by (smt (verit) zero_less_power less_le_trans zero_less_numeral)
  from ilog2_bounds [OF n0] have lo: "2 ^ ?k \<le> ?n" and hi: "?n < 2 ^ Suc ?k"
    by simp_all
  from n hi have "(2::nat) ^ 1024 < 2 ^ Suc ?k" by linarith
  then have "1024 < Suc ?k"
    by (rule power_less_imp_less_exp [rotated]) simp
  then have k: "1024 \<le> ?k" by simp
  have e: "floor_log2 q = int ?k"
    using q1 by (simp add: floor_log2_def)
  have "of_nat ?n \<le> q"
    using q0 by (simp add: of_nat_floor)
  moreover from lo have "(of_nat (2 ^ ?k) :: rat) \<le> of_nat ?n"
    by (rule of_nat_mono)
  moreover have "(of_nat (2 ^ ?k) :: rat) = 2 ^ ?k"
    by simp
  ultimately have qk: "2 ^ ?k \<le> q" by linarith
  let ?ulp = "(2::rat) ^ (?k - 52)"
  have ulp: "pow2 (max (floor_log2 q) (- 1022) - 52) = ?ulp"
    using k by (simp add: e pow2_def nat_diff_distrib)
  have "(2::rat) ^ (52 + (?k - 52)) = 2 ^ 52 * ?ulp"
    by (rule power_add)
  moreover have "52 + (?k - 52) = ?k"
    using k by simp
  ultimately have split: "(2::rat) ^ ?k = 2 ^ 52 * ?ulp"
    by metis
  have "2 ^ 52 \<le> q / ?ulp"
    using qk split by (simp add: pos_le_divide_eq)
  then have "(2::int) ^ 52 \<le> \<lfloor>q / ?ulp\<rfloor>"
    by (simp add: le_floor_iff)
  then have "(2::int) ^ 52 \<le> round_half_even (q / ?ulp)"
    using round_half_even_floor [of "q / ?ulp"] by linarith
  then have "(2::rat) ^ 52 \<le> of_int (round_half_even (q / ?ulp))"
    by (metis of_int_le_iff of_int_numeral of_int_power)
  then have "2 ^ 52 * ?ulp \<le> of_int (round_half_even (q / ?ulp)) * ?ulp"
    by (simp add: mult_right_mono)
  with split have m: "2 ^ ?k \<le> of_int (round_half_even (q / ?ulp)) * ?ulp"
    by simp
  have "(2::rat) ^ 1024 \<le> 2 ^ ?k"
    using k by (intro power_increasing) simp_all
  with m have "pow2 1024 \<le> of_int (round_half_even (q / ?ulp)) * ?ulp"
    by (simp add: pow2_def)
  then show ?thesis
    using q0 ulp by (simp add: round_double_def Let_def)
qed

lemma floor_log2_bounds:
  assumes "0 < q"
  shows "pow2 (floor_log2 q) \<le> q" and "q < pow2 (floor_log2 q + 1)"
proof -
  have "pow2 (floor_log2 q) \<le> q \<and> q < pow2 (floor_log2 q + 1)"
  proof (cases "1 \<le> q")
    case True
    let ?n = "nat \<lfloor>q\<rfloor>"
    have n0: "0 < ?n" using True by simp
    from ilog2_bounds [OF n0] have lo: "2 ^ ilog2 ?n \<le> ?n" and hi: "?n < 2 ^ Suc (ilog2 ?n)"
      by simp_all
    have e: "floor_log2 q = int (ilog2 ?n)"
      using True by (simp add: floor_log2_def)
    have nq: "of_nat ?n \<le> q" "q < of_nat ?n + 1"
      using assms by (simp_all add: of_nat_floor) linarith
    from lo have "(of_nat (2 ^ ilog2 ?n) :: rat) \<le> of_nat ?n"
      by (rule of_nat_mono)
    moreover have "(of_nat (2 ^ ilog2 ?n) :: rat) = 2 ^ ilog2 ?n"
      by simp
    ultimately have a: "(2::rat) ^ ilog2 ?n \<le> q"
      using nq(1) by linarith
    from hi have "Suc ?n \<le> 2 ^ Suc (ilog2 ?n)" by simp
    then have "(of_nat (Suc ?n) :: rat) \<le> of_nat (2 ^ Suc (ilog2 ?n))"
      by (rule of_nat_mono)
    moreover have "(of_nat (2 ^ Suc (ilog2 ?n)) :: rat) = 2 ^ Suc (ilog2 ?n)"
      by simp
    moreover have "(of_nat (Suc ?n) :: rat) = of_nat ?n + 1"
      by simp
    ultimately have b: "q < 2 ^ Suc (ilog2 ?n)"
      using nq(2) by linarith
    have "floor_log2 q + 1 = int (Suc (ilog2 ?n))"
      by (simp add: e)
    then have "pow2 (floor_log2 q + 1) = 2 ^ Suc (ilog2 ?n)"
      by (simp only: pow2_nat)
    with a b show ?thesis
      by (simp add: e pow2_nat)
  next
    case False
    let ?x = "1 / q"
    let ?n = "nat \<lceil>?x\<rceil>"
    let ?j = "ilog2 (?n - 1)"
    from False assms have x1: "1 < ?x" by simp
    then have c2: "2 \<le> \<lceil>?x\<rceil>"
      by linarith
    then have n2: "2 \<le> ?n"
      by linarith
    then have n1: "0 < ?n - 1"
      by linarith
    from ilog2_bounds [OF n1] have lo: "2 ^ ?j \<le> ?n - 1" and hi: "?n - 1 < 2 ^ Suc ?j"
      by simp_all
    have e: "floor_log2 q = - int (Suc ?j)"
      using False n2 by (simp add: floor_log2_def Let_def)
    have xn: "?x \<le> of_nat ?n" "of_nat ?n - 1 < ?x"
      using c2 by (simp_all add: of_nat_ceiling) linarith
    from hi have "?n \<le> 2 ^ Suc ?j" by simp
    then have "(of_nat ?n :: rat) \<le> of_nat (2 ^ Suc ?j)"
      by (rule of_nat_mono)
    moreover have "(of_nat (2 ^ Suc ?j) :: rat) = 2 ^ Suc ?j"
      by simp
    ultimately have "?x \<le> 2 ^ Suc ?j"
      using xn(1) by linarith
    then have a: "1 / 2 ^ Suc ?j \<le> q"
      using assms by (simp add: field_simps)
    from lo have "(of_nat (2 ^ ?j) :: rat) \<le> of_nat (?n - 1)"
      by (rule of_nat_mono)
    moreover have "(of_nat (?n - 1) :: rat) = of_nat ?n - 1"
      using n2 by (simp add: of_nat_diff)
    moreover have "(of_nat (2 ^ ?j) :: rat) = 2 ^ ?j"
      by simp
    ultimately have "2 ^ ?j < ?x"
      using xn(2) by linarith
    then have b: "q < 1 / 2 ^ ?j"
      using assms by (simp add: field_simps)
    have "floor_log2 q + 1 = - int ?j"
      by (simp add: e)
    then have "pow2 (floor_log2 q + 1) = 1 / 2 ^ ?j"
      by (simp only: pow2_neg_nat)
    moreover have "pow2 (floor_log2 q) = 1 / 2 ^ Suc ?j"
      by (simp only: e pow2_neg_nat)
    ultimately show ?thesis
      using a b by simp
  qed
  then show "pow2 (floor_log2 q) \<le> q" and "q < pow2 (floor_log2 q + 1)"
    by simp_all
qed

lemma round_half_even_int: "round_half_even (of_int z) = z"
  by (simp add: round_half_even_def)

lemma round_half_even_near: "\<bar>of_int (round_half_even x) - x\<bar> \<le> 1 / 2"
  unfolding round_half_even_def Let_def
  by (auto simp add: abs_if; linarith)


lemma round_double_exact:
  assumes k: "0 < k" "k < 2 ^ 53" and e: "- 1074 \<le> e"
    and range: "of_nat k * pow2 e < pow2 1024"
  shows "round_double (of_nat k * pow2 e) = Finite (of_nat k * pow2 e)"
proof -
  define q :: rat where "q = of_nat k * pow2 e"
  define E where "E = max (floor_log2 q) (- 1022)"
  define u where "u = pow2 (E - 52)"
  define d where "d = e - (E - 52)"
  have q0: "0 < q"
    using k(1) by (simp add: q_def pow2_pos)
  have u0: "0 < u"
    by (simp add: u_def pow2_pos)
  have "pow2 (floor_log2 q) \<le> q"
    using q0 by (rule floor_log2_bounds)
  moreover have "(of_nat k :: rat) < 2 ^ 53"
    using k(2) by (metis of_nat_less_iff of_nat_numeral of_nat_power)
  then have "q < 2 ^ 53 * pow2 e"
    by (simp add: q_def pow2_pos)
  moreover have "(2::rat) ^ 53 * pow2 e = pow2 (53 + e)"
    by (simp only: pow2_add pow2_nat [of 53, symmetric]) simp
  ultimately have "pow2 (floor_log2 q) < pow2 (53 + e)"
    by linarith
  then have "floor_log2 q < 53 + e"
    by (rule pow2_less_exp)
  with e have d0: "0 \<le> d"
    by (simp add: d_def E_def)
  have "e = d + (E - 52)"
    by (simp add: d_def)
  then have "pow2 e = pow2 d * u"
    by (simp only: pow2_add u_def)
  moreover have "pow2 d = of_int (2 ^ nat d)"
    using d0 by (simp add: pow2_def)
  ultimately have qu: "q = of_int (int k * 2 ^ nat d) * u"
    by (simp add: q_def)
  then have "q / u = of_int (int k * 2 ^ nat d)"
    using u0 by simp
  then have "round_half_even (q / u) = int k * 2 ^ nat d"
    by (simp only: round_half_even_int)
  then have m: "of_int (round_half_even (q / u)) * u = q"
    using qu by simp
  have "round_double q = Finite q"
    using q0 range m [unfolded u_def E_def]
    by (simp add: round_double_def Let_def q_def [symmetric])
  then show ?thesis
    by (simp only: q_def)
qed

lemma round_double_error:
  assumes "pow2 (- 1022) \<le> q" and "round_double q = Finite r"
  shows "\<bar>r - q\<bar> \<le> q / 2 ^ 53"
proof -
  have q0: "0 < q"
    using assms(1) pow2_pos [of "- 1022"] by linarith
  define E where "E = floor_log2 q"
  define u where "u = pow2 (E - 52)"
  define a :: rat where "a = of_int (round_half_even (q / u))"
  have lo: "pow2 E \<le> q" and hi: "q < pow2 (E + 1)"
    unfolding E_def using q0 by (rule floor_log2_bounds)+
  from assms(1) hi have "pow2 (- 1022) < pow2 (E + 1)"
    by linarith
  then have "- 1022 < E + 1"
    by (rule pow2_less_exp)
  then have E: "max (floor_log2 q) (- 1022) = E"
    by (simp add: E_def)
  have u0: "0 < u"
    by (simp add: u_def pow2_pos)
  have r: "r = a * u"
    using assms(2) q0
    by (simp add: round_double_def Let_def a_def u_def E split: if_splits)
  have "a * u - q = (a - q / u) * u"
    using u0 by (simp add: left_diff_distrib)
  then have "\<bar>a * u - q\<bar> = \<bar>a - q / u\<bar> * u"
    using u0 by (simp add: abs_mult)
  moreover have "\<bar>a - q / u\<bar> \<le> 1 / 2"
    unfolding a_def by (rule round_half_even_near)
  then have "\<bar>a - q / u\<bar> * u \<le> 1 / 2 * u"
    using u0 by (simp add: mult_right_mono)
  ultimately have near: "\<bar>a * u - q\<bar> \<le> u / 2"
    by simp
  have "E = 52 + (E - 52)"
    by simp
  then have "pow2 E = pow2 52 * u"
    unfolding u_def by (metis pow2_add)
  moreover have "pow2 52 = 2 ^ 52"
    using pow2_nat [of 52] by simp
  ultimately have "2 ^ 52 * u \<le> q"
    using lo by simp
  then have "u / 2 \<le> q / 2 ^ 53"
    by (simp add: field_simps)
  with near r show ?thesis
    by linarith
qed

subsection \<open>The number a price text writes\<close>

lemma round_double_not_NaN: "round_double q \<noteq> NaN"
  by (simp add: round_double_def Let_def)

lemma round_double_nonneg: "0 \<le> q \<Longrightarrow> round_double q \<noteq> NegInf"
  by (simp add: round_double_def Let_def)

lemma decimal_prefix_nonneg: "decimal_prefix s = Some q \<Longrightarrow> 0 \<le> q"
  by (auto simp add: decimal_prefix_def Let_def split: if_splits)

lemma parsePrice_numeric:
  "parsePrice s =
     (if numeric_price s then parseFloat (filter (\<lambda>c. is_digit c \<or> c = CHR ''.'') s)
      else PosInf)"
proof (cases "s = []")
  case True
  then show ?thesis
    by (simp add: parsePrice_def numeric_price_def decimal_prefix_def)
next
  case False
  then show ?thesis
    by (auto simp add: parsePrice_def numeric_price_def parseFloat_def Let_def
          round_double_not_NaN split: option.splits)
qed

lemma parsePrice_cases: "parsePrice s = PosInf \<or> (\<exists>q. parsePrice s = Finite q)"
proof (cases "decimal_prefix (filter (\<lambda>c. is_digit c \<or> c = CHR ''.'') s)")
  case None
  then show ?thesis
    by (simp add: parsePrice_numeric numeric_price_def)
next
  case (Some q)
  then have "0 \<le> q" by (rule decimal_prefix_nonneg)
  then have "round_double q \<noteq> NegInf" "round_double q \<noteq> NaN"
    by (simp_all add: round_double_nonneg round_double_not_NaN)
  then show ?thesis
    using Some by (cases "round_double q") (simp_all add: parsePrice_numeric numeric_price_def parseFloat_def)
qed

lemma price_char_lambda: "(\<lambda>c. is_digit c \<or> c = CHR ''.'') = price_char"
  by (intro ext) (simp add: price_char_def)

lemma dot_no_digit: "\<not> is_digit CHR ''.''"
  by (simp add: is_digit_def)

lemma decimal_of_Cons:
  "decimal_of (d # ds) = digit_val d * 10 ^ length ds + decimal_of ds"
  by (simp add: decimal_of_def sum.lessThan_Suc_shift del: sum.lessThan_Suc)

lemma foldl_decimal:
  "foldl (\<lambda>n c. 10 * n + digit_val c) a ds = a * 10 ^ length ds + decimal_of ds"
proof (induction ds arbitrary: a)
  case Nil
  show ?case by (simp add: decimal_of_def)
next
  case (Cons d ds)
  show ?case
    by (simp add: Cons.IH decimal_of_Cons) (simp add: algebra_simps)
qed

lemma digits_val_decimal: "digits_val ds = decimal_of ds"
  by (simp add: digits_val_def foldl_decimal)

lemma takeWhile_digits:
  assumes "\<forall>c \<in> set ds. is_digit c" and "aft = [] \<or> \<not> is_digit (hd aft)"
  shows "takeWhile is_digit (ds @ aft) = ds" and "dropWhile is_digit (ds @ aft) = aft"
proof -
  from assms(2) have t: "takeWhile is_digit aft = []" and d: "dropWhile is_digit aft = aft"
    by (cases aft; auto)+
  from assms(1) show "takeWhile is_digit (ds @ aft) = ds"
    by (simp add: t)
  from assms(1) show "dropWhile is_digit (ds @ aft) = aft"
    by (simp add: d)
qed

lemma decimal_prefix_whole:
  assumes "ip \<noteq> []" and "\<forall>c \<in> set ip. is_digit c"
  shows "decimal_prefix ip = Some (of_nat (decimal_of ip))"
proof -
  have a: "takeWhile is_digit ip = ip" "dropWhile is_digit ip = []"
    using assms(2) by simp_all
  show ?thesis
    unfolding decimal_prefix_def a
    using assms(1) by (simp add: digits_val_decimal decimal_of_def)
qed

lemma decimal_prefix_dotted:
  assumes "\<forall>c \<in> set ip. is_digit c" and "\<forall>c \<in> set fp. is_digit c"
    and "ip \<noteq> [] \<or> fp \<noteq> []" and "aft = [] \<or> \<not> is_digit (hd aft)"
  shows "decimal_prefix (ip @ CHR ''.'' # fp @ aft) = Some (decimal_value ip fp)"
proof -
  have a: "takeWhile is_digit (ip @ CHR ''.'' # fp @ aft) = ip"
    "dropWhile is_digit (ip @ CHR ''.'' # fp @ aft) = CHR ''.'' # fp @ aft"
    using takeWhile_digits [OF assms(1), of "CHR ''.'' # fp @ aft"] by (simp_all add: dot_no_digit)
  have b: "takeWhile is_digit (fp @ aft) = fp"
    using assms(2,4) by (rule takeWhile_digits)
  show ?thesis
    unfolding decimal_prefix_def a
    using assms(3) by (simp add: b digits_val_decimal decimal_value_def)
qed

lemma decimal_prefix_none:
  assumes "t = [] \<or> (\<exists>aft. t = CHR ''.'' # aft \<and> (aft = [] \<or> \<not> is_digit (hd aft)))"
  shows "decimal_prefix t = None"
proof -
  from assms consider "t = []" | aft where "t = CHR ''.'' # aft" "aft = [] \<or> \<not> is_digit (hd aft)"
    by blast
  then show ?thesis
  proof cases
    case 1
    then show ?thesis by (simp add: decimal_prefix_def)
  next
    case 2
    from 2(2) have "takeWhile is_digit aft = []"
      by (cases aft) auto
    with 2(1) show ?thesis
      by (simp add: decimal_prefix_def dot_no_digit)
  qed
qed

lemma parsePrice_stripped:
  "parsePrice s = (case decimal_prefix (stripped s) of None \<Rightarrow> PosInf | Some q \<Rightarrow> round_double q)"
proof (cases "s = []")
  case True
  then show ?thesis
    by (simp add: parsePrice_def stripped_def decimal_prefix_def)
next
  case False
  then show ?thesis
    by (simp add: parsePrice_def stripped_def price_char_lambda parseFloat_def Let_def
          round_double_not_NaN split: option.splits)
qed

lemma stripped_idem: "stripped (stripped s) = stripped s"
  by (simp add: stripped_def)

lemma price_shapes:
  "(stripped s = [] \<or> (\<exists>aft. stripped s = CHR ''.'' # aft \<and> (aft = [] \<or> \<not> is_digit (hd aft))))
   \<or> (\<exists>ip. stripped s = ip \<and> ip \<noteq> [] \<and> (\<forall>c \<in> set ip. is_digit c))
   \<or> (\<exists>ip fp aft. stripped s = ip @ CHR ''.'' # fp @ aft
         \<and> (\<forall>c \<in> set ip. is_digit c) \<and> (\<forall>c \<in> set fp. is_digit c)
         \<and> (ip \<noteq> [] \<or> fp \<noteq> []) \<and> (aft = [] \<or> \<not> is_digit (hd aft)))"
proof -
  let ?t = "stripped s"
  let ?ip = "takeWhile is_digit ?t" and ?rest = "dropWhile is_digit ?t"
  have ip: "\<forall>c \<in> set ?ip. is_digit c"
    by (auto dest: set_takeWhileD)
  have t: "?t = ?ip @ ?rest" by simp
  show ?thesis
  proof (cases ?rest)
    case Nil
    with t have "?t = ?ip" by simp
    with ip show ?thesis by (cases "?ip = []") auto
  next
    case (Cons r rs)
    then have "\<not> is_digit r"
      by (metis hd_dropWhile list.sel(1) list.distinct(1))
    moreover have "r \<in> set ?t"
      by (metis Cons list.set_intros(1) set_dropWhileD)
    then have "price_char r"
      by (simp add: stripped_def)
    ultimately have r: "r = CHR ''.''"
      by (simp add: price_char_def)
    let ?fp = "takeWhile is_digit rs" and ?aft = "dropWhile is_digit rs"
    have fp: "\<forall>c \<in> set ?fp. is_digit c"
      by (auto dest: set_takeWhileD)
    have aft: "?aft = [] \<or> \<not> is_digit (hd ?aft)"
      using hd_dropWhile by blast
    have eq: "?t = ?ip @ CHR ''.'' # ?fp @ ?aft"
      using t Cons r by simp
    show ?thesis
    proof (cases "?ip = [] \<and> ?fp = []")
      case True
      with eq have "?t = CHR ''.'' # ?aft" by simp
      with aft show ?thesis by blast
    next
      case False
      with eq ip fp aft show ?thesis by blast
    qed
  qed
qed

lemma floor_log2_2469: "floor_log2 (2469 / 2) = 10"
  by code_simp

lemma round_double_2469: "round_double (2469 / 2) = Finite (2469 / 2)"
  by (simp add: round_double_def floor_log2_2469 pow2_def round_half_even_def Let_def)

lemma stripped_price: "stripped ''$1,234.50'' = ''1234'' @ CHR ''.'' # ''50'' @ []"
  by (simp add: stripped_def price_char_def is_digit_def)

lemma decimal_of_eval:
  "decimal_of ''1234'' = 1234" "decimal_of ''50'' = 50" "decimal_of ''10'' = 10"
  "decimal_of ''0'' = 0" "decimal_of ''1'' = 1" "decimal_of ''9007199254740993'' = 9007199254740993"
  by (simp_all add: digits_val_decimal [symmetric] digits_val_def digit_val_def)

lemma floor_log2_tenth: "floor_log2 (1 / 10) = - 4"
  by code_simp

lemma round_half_even_tenth: "round_half_even (36028797018963968 / 5) = 7205759403792794"
  by code_simp

lemma round_double_tenth:
  "round_double (1 / 10) = Finite (3602879701896397 / 36028797018963968)"
  by (simp add: round_double_def floor_log2_tenth pow2_def round_half_even_tenth Let_def)

lemma floor_log2_unique:
  assumes "0 < q" and "pow2 n \<le> q" and "q < pow2 (n + 1)"
  shows "floor_log2 q = n"
proof -
  from floor_log2_bounds [OF assms(1)] assms(2,3)
  have a: "pow2 (floor_log2 q) < pow2 (n + 1)" and b: "pow2 n < pow2 (floor_log2 q + 1)"
    by linarith+
  from a have "floor_log2 q < n + 1"
    by (rule pow2_less_exp)
  moreover from b have "n < floor_log2 q + 1"
    by (rule pow2_less_exp)
  ultimately show ?thesis by simp
qed

lemma floor_log2_tie: "floor_log2 9007199254740993 = 53"
  by (rule floor_log2_unique) (simp_all add: pow2_def)

lemma round_half_even_tie: "round_half_even (9007199254740993 / 2) = 4503599627370496"
  by code_simp

lemma round_double_tie: "round_double 9007199254740993 = Finite 9007199254740992"
  by (simp add: round_double_def floor_log2_tie pow2_def round_half_even_tie Let_def)

text \<open>
  C8. \<open>parsePrice\<close> reads the price text stripped of all but its digits and dots.
  Stripped to digits alone, or to digits, a dot, digits and then no further digit (one of
  the two runs of digits may be empty), the text is worth the number these digits write in
  base ten, rounded to a double. Stripped to nothing, or to a dot that no digit follows,
  it is worth \<open>Infinity\<close>. Every text is of one of these shapes. The double of a number
  is the number itself when it has 53 bits, is within \<open>2\<^sup>-\<^sup>5\<^sup>3\<close> of it in proportion, and is
  \<open>Infinity\<close> from \<open>2\<^sup>1\<^sup>0\<^sup>2\<^sup>4\<close> on. The examples of the specification, a price that is
  not a double, and a tie.
\<close>

theorem parsePrice_value:
  "parsePrice ''$1,234.50'' = Finite (2469 / 2)
   \<and> parsePrice '''' = PosInf
   \<and> parsePrice ''Free'' = PosInf
   \<and> parsePrice ''0.1'' = Finite (3602879701896397 / 36028797018963968)
   \<and> parsePrice ''9007199254740993'' = Finite 9007199254740992
   \<and> parsePrice s = parsePrice (stripped s)
   \<and> (stripped s = ip \<and> ip \<noteq> [] \<and> (\<forall>c \<in> set ip. is_digit c)
        \<longrightarrow> parsePrice s = round_double (of_nat (decimal_of ip)))
   \<and> (stripped s = ip @ CHR ''.'' # fp @ aft
        \<and> (\<forall>c \<in> set ip. is_digit c) \<and> (\<forall>c \<in> set fp. is_digit c)
        \<and> (ip \<noteq> [] \<or> fp \<noteq> []) \<and> (aft = [] \<or> \<not> is_digit (hd aft))
        \<longrightarrow> parsePrice s = round_double (decimal_value ip fp))
   \<and> (stripped s = [] \<or> (\<exists>aft. stripped s = CHR ''.'' # aft \<and> (aft = [] \<or> \<not> is_digit (hd aft)))
        \<longrightarrow> parsePrice s = PosInf)
   \<and> ((stripped s = [] \<or> (\<exists>aft. stripped s = CHR ''.'' # aft \<and> (aft = [] \<or> \<not> is_digit (hd aft))))
        \<or> (\<exists>ip. stripped s = ip \<and> ip \<noteq> [] \<and> (\<forall>c \<in> set ip. is_digit c))
        \<or> (\<exists>ip fp aft. stripped s = ip @ CHR ''.'' # fp @ aft
              \<and> (\<forall>c \<in> set ip. is_digit c) \<and> (\<forall>c \<in> set fp. is_digit c)
              \<and> (ip \<noteq> [] \<or> fp \<noteq> []) \<and> (aft = [] \<or> \<not> is_digit (hd aft))))
   \<and> (0 < k \<and> k < 2 ^ 53 \<and> - 1074 \<le> e \<and> of_nat k * pow2 e < pow2 1024
        \<longrightarrow> round_double (of_nat k * pow2 e) = Finite (of_nat k * pow2 e))
   \<and> (pow2 (- 1022) \<le> q \<and> round_double q = Finite r \<longrightarrow> \<bar>r - q\<bar> \<le> q / 2 ^ 53)
   \<and> (2 ^ 1024 \<le> q \<longrightarrow> round_double q = PosInf)"
proof -
  have dotted: "parsePrice t = round_double (decimal_value ip' fp')"
    if "stripped t = ip' @ CHR ''.'' # fp' @ aft'"
      and "\<forall>c \<in> set ip'. is_digit c" and "\<forall>c \<in> set fp'. is_digit c"
      and "ip' \<noteq> [] \<or> fp' \<noteq> []" and "aft' = [] \<or> \<not> is_digit (hd aft')"
    for t ip' fp' aft'
    using that by (simp add: parsePrice_stripped decimal_prefix_dotted)
  have whole: "parsePrice t = round_double (of_nat (decimal_of ip'))"
    if "stripped t = ip'" and "ip' \<noteq> []" and "\<forall>c \<in> set ip'. is_digit c" for t ip'
    using that by (simp add: parsePrice_stripped decimal_prefix_whole)
  have none: "parsePrice t = PosInf"
    if "stripped t = [] \<or> (\<exists>aft. stripped t = CHR ''.'' # aft \<and> (aft = [] \<or> \<not> is_digit (hd aft)))"
    for t
    using decimal_prefix_none [OF that] by (simp add: parsePrice_stripped)
  have 1: "parsePrice ''$1,234.50'' = Finite (2469 / 2)"
    using dotted [OF stripped_price]
    by (simp add: is_digit_def decimal_value_def decimal_of_eval round_double_2469)
  have 2: "parsePrice '''' = PosInf"
    by (rule none) (simp add: stripped_def)
  have 3: "parsePrice ''Free'' = PosInf"
    by (rule none) (simp add: stripped_def price_char_def is_digit_def)
  have "stripped ''0.1'' = ''0'' @ CHR ''.'' # ''1'' @ []"
    by (simp add: stripped_def price_char_def is_digit_def)
  from dotted [OF this] have 4: "parsePrice ''0.1'' = Finite (3602879701896397 / 36028797018963968)"
    by (simp add: is_digit_def decimal_value_def decimal_of_eval round_double_tenth)
  have "stripped ''9007199254740993'' = ''9007199254740993''"
    by (simp add: stripped_def price_char_def is_digit_def)
  from whole [OF this] have 5: "parsePrice ''9007199254740993'' = Finite 9007199254740992"
    by (simp add: is_digit_def decimal_of_eval round_double_tie)
  have 6: "parsePrice s = parsePrice (stripped s)"
    by (simp add: parsePrice_stripped stripped_idem)
  have 7: "stripped s = ip \<and> ip \<noteq> [] \<and> (\<forall>c \<in> set ip. is_digit c)
        \<longrightarrow> parsePrice s = round_double (of_nat (decimal_of ip))"
    using whole [of s ip] by blast
  have 8: "stripped s = ip @ CHR ''.'' # fp @ aft
        \<and> (\<forall>c \<in> set ip. is_digit c) \<and> (\<forall>c \<in> set fp. is_digit c)
        \<and> (ip \<noteq> [] \<or> fp \<noteq> []) \<and> (aft = [] \<or> \<not> is_digit (hd aft))
        \<longrightarrow> parsePrice s = round_double (decimal_value ip fp)"
    using dotted [of s ip fp aft] by blast
  have 9: "stripped s = [] \<or> (\<exists>aft. stripped s = CHR ''.'' # aft \<and> (aft = [] \<or> \<not> is_digit (hd aft)))
        \<longrightarrow> parsePrice s = PosInf"
    using none [of s] by blast
  have 10: "0 < k \<and> k < 2 ^ 53 \<and> - 1074 \<le> e \<and> of_nat k * pow2 e < pow2 1024
        \<longrightarrow> round_double (of_nat k * pow2 e) = Finite (of_nat k * pow2 e)"
    using round_double_exact [of k e] by blast
  have 11: "pow2 (- 1022) \<le> q \<and> round_double q = Finite r \<longrightarrow> \<bar>r - q\<bar> \<le> q / 2 ^ 53"
    using round_double_error [of q r] by blast
  have 12: "2 ^ 1024 \<le> q \<longrightarrow> round_double q = PosInf"
    using round_double_overflow [of q] by blast
  show ?thesis
    by (intro conjI) (rule 1 2 3 4 5 6 7 8 9 price_shapes 10 11 12)+
qed


theorem parsePrice_value_witness:
  "parsePrice ''10'' = round_double (of_nat (decimal_of ''10''))
   \<and> decimal_of ''10'' = 10
   \<and> parsePrice ''$1,234.50'' = round_double (decimal_value ''1234'' ''50'')
   \<and> decimal_value ''1234'' ''50'' = 2469 / 2
   \<and> parsePrice ''Free'' = PosInf
   \<and> round_double (of_nat 2469 * pow2 (- 1)) = Finite (of_nat 2469 * pow2 (- 1))
   \<and> \<bar>3602879701896397 / 36028797018963968 - 1 / 10\<bar> \<le> (1 / 10) / (2 ^ 53 :: rat)
   \<and> round_double (10 ^ 400) = PosInf"
proof -
  have d: "\<forall>c \<in> set ''10''. is_digit c" "\<forall>c \<in> set ''1234''. is_digit c"
    "\<forall>c \<in> set ''50''. is_digit c"
    by (simp_all add: is_digit_def)
  have s1: "stripped ''10'' = ''10''"
    by (simp add: stripped_def price_char_def is_digit_def)
  have a: "parsePrice ''10'' = round_double (of_nat (decimal_of ''10''))"
    using parsePrice_value [where ?s = "''10''" and ip = "''10''"] s1 d(1) by blast
  have b: "parsePrice ''$1,234.50'' = round_double (decimal_value ''1234'' ''50'')"
    using parsePrice_value [where ?s = "''$1,234.50''" and ip = "''1234''" and fp = "''50''"
        and aft = "[]"] stripped_price d(2,3)
    by blast
  have v: "decimal_value ''1234'' ''50'' = 2469 / 2"
    by (simp add: decimal_value_def decimal_of_eval)
  have "stripped ''Free'' = []"
    by (simp add: stripped_def price_char_def is_digit_def)
  then have c: "parsePrice ''Free'' = PosInf"
    using parsePrice_value [where ?s = "''Free''"] by blast
  have "(0::nat) < 2469" "(2469::nat) < 2 ^ 53" "(- 1074 :: int) \<le> - 1"
    "of_nat 2469 * pow2 (- 1) < pow2 1024"
    by (simp_all add: pow2_def)
  then have e: "round_double (of_nat 2469 * pow2 (- 1)) = Finite (of_nat 2469 * pow2 (- 1))"
    using parsePrice_value [where k = 2469 and e = "- 1"] by blast
  have "pow2 (- 1022) \<le> 1 / 10"
    by (simp add: pow2_def)
  then have f: "\<bar>3602879701896397 / 36028797018963968 - 1 / 10\<bar> \<le> (1 / 10) / (2 ^ 53 :: rat)"
    using parsePrice_value [where q = "1 / 10" and r = "3602879701896397 / 36028797018963968"]
      round_double_tenth
    by blast
  have "(2::rat) ^ 1024 \<le> 10 ^ 400"
    by simp
  then have g: "round_double (10 ^ 400) = PosInf"
    using parsePrice_value [where q = "10 ^ 400"] by blast
  from a b v c e f g decimal_of_eval(3) show ?thesis
    by blast
qed

subsection \<open>The price sort\<close>

lemma asc_positive:
  "unpriced x \<Longrightarrow> \<not> unpriced y \<Longrightarrow> positive (by_price_asc x y)"
  "unpriced y \<Longrightarrow> \<not> positive (by_price_asc x y)"
  using parsePrice_cases [of "price x"] parsePrice_cases [of "price y"]
  by (auto simp add: unpriced_def by_price_asc_def)

lemma desc_positive:
  "unpriced y \<Longrightarrow> \<not> unpriced x \<Longrightarrow> positive (by_price_desc x y)"
  "unpriced x \<Longrightarrow> \<not> positive (by_price_desc x y)"
  using parsePrice_cases [of "price x"] parsePrice_cases [of "price y"]
  by (auto simp add: unpriced_def by_price_desc_def)

lemma insert_asc_unpriced:
  assumes "unpriced x" "\<forall>a \<in> set fs. \<not> unpriced a" "\<forall>a \<in> set us. unpriced a"
  shows "insert_by by_price_asc x (fs @ us) = fs @ x # us"
  using assms
proof (induction fs)
  case Nil
  then show ?case by (cases us) (simp_all add: asc_positive)
next
  case (Cons f fs)
  then show ?case by (simp add: asc_positive)
qed

lemma insert_asc_priced:
  assumes "\<forall>a \<in> set us. unpriced a"
  shows "insert_by by_price_asc x (fs @ us) = insert_by by_price_asc x fs @ us"
  using assms
proof (induction fs)
  case Nil
  then show ?case by (cases us) (simp_all add: asc_positive)
next
  case (Cons f fs)
  then show ?case by simp
qed

lemma set_insert_by: "set (insert_by cmp x ys) = insert x (set ys)"
  by (induction ys) auto

lemma asc_shape:
  "\<exists>fs. js_sort by_price_asc xs = fs @ filter unpriced xs \<and> (\<forall>a \<in> set fs. \<not> unpriced a)"
proof (induction xs)
  case Nil
  show ?case by (simp add: js_sort_def)
next
  case (Cons x xs)
  then obtain fs where fs: "js_sort by_price_asc xs = fs @ filter unpriced xs"
    "\<forall>a \<in> set fs. \<not> unpriced a" by blast
  have step: "js_sort by_price_asc (x # xs) = insert_by by_price_asc x (js_sort by_price_asc xs)"
    by (simp add: js_sort_def)
  show ?case
  proof (cases "unpriced x")
    case True
    then have "js_sort by_price_asc (x # xs) = fs @ filter unpriced (x # xs)"
      using fs by (simp add: step insert_asc_unpriced)
    then show ?thesis using fs(2) by blast
  next
    case False
    have "js_sort by_price_asc (x # xs) = insert_by by_price_asc x fs @ filter unpriced (x # xs)"
      using fs False by (simp add: step insert_asc_priced)
    moreover have "\<forall>a \<in> set (insert_by by_price_asc x fs). \<not> unpriced a"
      using fs(2) False by (simp add: set_insert_by)
    ultimately show ?thesis by blast
  qed
qed

lemma insert_desc_unpriced:
  assumes "unpriced x"
  shows "insert_by by_price_desc x ys = x # ys"
  using assms by (cases ys) (simp_all add: desc_positive)

lemma insert_desc_priced:
  assumes "\<not> unpriced x" "\<forall>a \<in> set us. unpriced a"
  shows "insert_by by_price_desc x (us @ fs) = us @ insert_by by_price_desc x fs"
  using assms by (induction us) (simp_all add: desc_positive)

lemma desc_shape:
  "\<exists>fs. js_sort by_price_desc xs = filter unpriced xs @ fs \<and> (\<forall>a \<in> set fs. \<not> unpriced a)"
proof (induction xs)
  case Nil
  show ?case by (simp add: js_sort_def)
next
  case (Cons x xs)
  then obtain fs where fs: "js_sort by_price_desc xs = filter unpriced xs @ fs"
    "\<forall>a \<in> set fs. \<not> unpriced a" by blast
  have step: "js_sort by_price_desc (x # xs) = insert_by by_price_desc x (js_sort by_price_desc xs)"
    by (simp add: js_sort_def)
  show ?case
  proof (cases "unpriced x")
    case True
    then have "js_sort by_price_desc (x # xs) = filter unpriced (x # xs) @ fs"
      using fs by (simp add: step insert_desc_unpriced)
    then show ?thesis using fs(2) by blast
  next
    case False
    have "js_sort by_price_desc (x # xs) = filter unpriced (x # xs) @ insert_by by_price_desc x fs"
      using fs False by (simp add: step insert_desc_priced)
    moreover have "\<forall>a \<in> set (insert_by by_price_desc x fs). \<not> unpriced a"
      using fs(2) False by (simp add: set_insert_by)
    ultimately show ?thesis by blast
  qed
qed

lemma mset_insert_by: "mset (insert_by cmp x ys) = add_mset x (mset ys)"
  by (induction ys) auto

lemma mset_js_sort: "mset (js_sort cmp xs) = mset xs"
  by (induction xs) (simp_all add: js_sort_def mset_insert_by)

lemma sortedStores_asc: "sortedStores (Some stores) Price_asc = js_sort by_price_asc stores"
proof -
  have "(\<lambda>a b. js_sub (parsePrice (price a)) (parsePrice (price b))) = by_price_asc"
    by (intro ext) (simp add: by_price_asc_def)
  then show ?thesis by (simp add: sortedStores_def)
qed

lemma sortedStores_desc: "sortedStores (Some stores) Price_desc = js_sort by_price_desc stores"
proof -
  have "(\<lambda>a b. js_sub (parsePrice (price b)) (parsePrice (price a))) = by_price_desc"
    by (intro ext) (simp add: by_price_desc_def)
  then show ?thesis by (simp add: sortedStores_def)
qed

lemma filter_priced_append:
  assumes "\<forall>a \<in> set fs. \<not> unpriced a"
  shows "filter (\<lambda>a. \<not> unpriced a) (fs @ filter unpriced xs) = fs"
    and "filter (\<lambda>a. \<not> unpriced a) (filter unpriced xs @ fs) = fs"
  using assms by (simp_all add: filter_id_conv)

text \<open>
  C1, as the code has it. An entry is unpriced when its parsed price is \<open>Infinity\<close>, as
  it is for every price text that starts with no number once stripped. Sorted by ascending
  price, the list is the priced entries followed by the unpriced ones; sorted by descending
  price, it is the unpriced entries followed by the priced ones. Both times the unpriced
  entries keep the order they came in, and the sorted list has the entries of the input.
\<close>

theorem price_sort_partitions:
  "sortedStores (Some stores) Price_asc =
     filter (\<lambda>a. \<not> unpriced a) (sortedStores (Some stores) Price_asc) @ filter unpriced stores
   \<and> sortedStores (Some stores) Price_desc =
     filter unpriced stores @ filter (\<lambda>a. \<not> unpriced a) (sortedStores (Some stores) Price_desc)
   \<and> mset (sortedStores (Some stores) Price_asc) = mset stores
   \<and> mset (sortedStores (Some stores) Price_desc) = mset stores
   \<and> (\<not> numeric_price (price a) \<longrightarrow> unpriced a)"
proof -
  obtain fs where fs: "js_sort by_price_asc stores = fs @ filter unpriced stores"
    "\<forall>a \<in> set fs. \<not> unpriced a"
    using asc_shape by blast
  obtain gs where gs: "js_sort by_price_desc stores = filter unpriced stores @ gs"
    "\<forall>a \<in> set gs. \<not> unpriced a"
    using desc_shape by blast
  have 1: "js_sort by_price_asc stores =
     filter (\<lambda>a. \<not> unpriced a) (js_sort by_price_asc stores) @ filter unpriced stores"
    using fs by (simp add: filter_priced_append)
  have 2: "js_sort by_price_desc stores =
     filter unpriced stores @ filter (\<lambda>a. \<not> unpriced a) (js_sort by_price_desc stores)"
    using gs by (simp add: filter_priced_append)
  have 3: "\<not> numeric_price (price a) \<longrightarrow> unpriced a"
    by (simp add: unpriced_def parsePrice_numeric)
  show ?thesis
    using 1 2 3 by (simp add: sortedStores_asc sortedStores_desc mset_js_sort)
qed

lemma floor_log2_10: "floor_log2 10 = 3"
  by code_simp

lemma round_double_10: "round_double 10 = Finite 10"
  by (simp add: round_double_def floor_log2_10 pow2_def round_half_even_def Let_def)

lemma parsePrice_10: "parsePrice ''10'' = Finite 10"
  by (simp add: parsePrice_def parseFloat_def decimal_prefix_def is_digit_def digits_val_def
        digit_val_def round_double_10)

lemma parsePrice_Free: "parsePrice ''Free'' = PosInf"
  by (simp add: parsePrice_def parseFloat_def decimal_prefix_def is_digit_def)

lemma numeric_10: "numeric_price ''10''"
  by (simp add: numeric_price_def decimal_prefix_def is_digit_def)

lemma numeric_Free: "\<not> numeric_price ''Free''"
  by (simp add: numeric_price_def decimal_prefix_def is_digit_def)

theorem price_sort_partitions_witness:
  "\<not> numeric_price (price (store_at ''Free'')) \<and> unpriced (store_at ''Free'')
   \<and> sortedStores (Some [store_at ''Free'', store_at ''10'']) Price_asc =
       [store_at ''10'', store_at ''Free'']"
proof -
  have a: "\<not> numeric_price (price (store_at ''Free''))"
    by (simp add: store_at_def numeric_Free)
  have b: "unpriced (store_at ''Free'')"
    using price_sort_partitions [of "[store_at ''Free'', store_at ''10'']" "store_at ''Free''"] a
    by blast
  have c: "sortedStores (Some [store_at ''Free'', store_at ''10'']) Price_asc =
       [store_at ''10'', store_at ''Free'']"
    by (simp add: sortedStores_def js_sort_def store_at_def parsePrice_10 parsePrice_Free)
  from a b c show ?thesis by blast
qed

text \<open>
  By descending price the entry with the price text \<open>Free\<close> comes first, before the
  entry at 10: it is not at the end.
\<close>

theorem price_desc_counterexample:
  "numeric_price ''10'' \<and> \<not> numeric_price ''Free''
   \<and> map price (sortedStores (Some [store_at ''10'', store_at ''Free'']) Price_desc) =
       [''Free'', ''10'']"
  by (simp add: numeric_10 numeric_Free sortedStores_def js_sort_def store_at_def
        parsePrice_10 parsePrice_Free)

subsection \<open>A price of digits that is worth \<open>Infinity\<close>\<close>

text \<open>
  A price of more than 308 digits rounds to \<open>Infinity\<close>: it is unpriced as well, though
  its text is numeric.
\<close>

lemma digits_val_zeros:
  "foldl (\<lambda>n c. 10 * n + (of_char c - 48)) (a :: nat) (replicate k CHR ''0'') = a * 10 ^ k"
  by (induction k arbitrary: a) simp_all

lemma parsePrice_overflow:
  "numeric_price (CHR ''1'' # replicate 400 CHR ''0'')
   \<and> parsePrice (CHR ''1'' # replicate 400 CHR ''0'') = PosInf"
proof -
  let ?s = "CHR ''1'' # replicate 400 CHR ''0''"
  have d: "\<forall>c \<in> set ?s. is_digit c"
    by (simp add: is_digit_def)
  then have f: "filter (\<lambda>c. is_digit c \<or> c = CHR ''.'') ?s = ?s"
    by (simp add: filter_id_conv)
  have tw: "takeWhile is_digit ?s = ?s" and dw: "dropWhile is_digit ?s = []"
    using d by simp_all
  have "digits_val ?s = 1 * 10 ^ 400"
    unfolding digits_val_def digit_val_def foldl_Cons
    by (subst digits_val_zeros [symmetric]) simp
  then have v: "digits_val ?s = 10 ^ 400"
    by (simp only: mult_1)
  have z: "digits_val [] = 0"
    by (simp add: digits_val_def)
  have dp: "decimal_prefix ?s = Some (10 ^ 400)"
    unfolding decimal_prefix_def tw dw by (simp add: v z)
  have "(2::rat) ^ 1024 \<le> 10 ^ 400"
    by simp
  then have "round_double (10 ^ 400) = PosInf"
    by (rule round_double_overflow)
  with dp f show ?thesis
    by (simp add: numeric_price_def parsePrice_def parseFloat_def)
qed

section \<open>Properties of the extractor\<close>

subsection \<open>A match needs two fences\<close>


lemma fence_length: "length fence = 3"
  by (simp add: fence_def)

lemma match_tail_Nil: "\<not> match_tail []"
  by (simp add: match_tail_def fence_def)

lemma lazy_group_Nil: "lazy_group [] = None"
  by (simp add: lazy_group.simps [of "[]"] match_tail_Nil)

lemma match_tail_fence: "match_tail t \<Longrightarrow> \<exists>a b. t = a @ fence @ b"
proof -
  assume "match_tail t"
  then obtain b where "dropWhile is_space t = fence @ b"
    by (auto simp add: match_tail_def prefix_def)
  then have "t = takeWhile is_space t @ fence @ b"
    by (metis takeWhile_dropWhile_id)
  then show ?thesis by blast
qed

lemma lazy_group_fence: "lazy_group t = Some g \<Longrightarrow> \<exists>a b. t = a @ fence @ b"
proof (induction t arbitrary: g)
  case Nil
  then show ?case by (simp add: lazy_group_Nil)
next
  case (Cons c cs)
  show ?case
  proof (cases "match_tail (c # cs)")
    case True
    then show ?thesis by (rule match_tail_fence)
  next
    case False
    with Cons.prems obtain g' where "lazy_group cs = Some g'"
      by (auto simp add: lazy_group.simps [of "c # cs"])
    then obtain a b where "cs = a @ fence @ b"
      using Cons.IH by blast
    then have "c # cs = (c # a) @ fence @ b" by simp
    then show ?thesis by blast
  qed
qed

lemma after_space_fence: "after_space t = Some g \<Longrightarrow> \<exists>a b. t = a @ fence @ b"
proof (induction t arbitrary: g)
  case Nil
  then show ?case by (simp add: lazy_group_Nil)
next
  case (Cons c cs)
  show ?case
  proof (cases "is_space c \<and> after_space cs \<noteq> None")
    case True
    then obtain g' where "after_space cs = Some g'" by blast
    then obtain a b where "cs = a @ fence @ b"
      using Cons.IH by blast
    then have "c # cs = (c # a) @ fence @ b" by simp
    then show ?thesis by blast
  next
    case False
    with Cons.prems have "lazy_group (c # cs) = Some g"
      by (auto split: if_splits option.splits)
    then show ?thesis by (rule lazy_group_fence)
  qed
qed

lemma after_tag_fence: "after_tag t = Some g \<Longrightarrow> \<exists>a b. t = a @ fence @ b"
proof (cases "prefix ''json'' t \<and> after_space (drop 4 t) \<noteq> None")
  case True
  then obtain g' where "after_space (drop 4 t) = Some g'" by blast
  then obtain a b where "drop 4 t = a @ fence @ b"
    using after_space_fence by blast
  then have "t = (take 4 t @ a) @ fence @ b"
    by (metis append.assoc append_take_drop_id)
  then show ?thesis by blast
next
  case False
  assume "after_tag t = Some g"
  with False have "after_space t = Some g"
    by (auto simp add: after_tag_def split: if_splits option.splits)
  then show ?thesis by (rule after_space_fence)
qed

lemma match_here_fence: "match_here t = Some g \<Longrightarrow> \<exists>a b. t = fence @ a @ fence @ b"
proof -
  assume m: "match_here t = Some g"
  then have p: "prefix fence t" and a: "after_tag (drop 3 t) = Some g"
    by (auto simp add: match_here_def split: if_splits)
  from a obtain a' b where "drop 3 t = a' @ fence @ b"
    using after_tag_fence by blast
  moreover from p have "t = fence @ drop 3 t"
    by (auto simp add: prefix_def fence_length)
  ultimately have "t = fence @ a' @ fence @ b" by simp
  then show ?thesis by blast
qed

lemma regex_match_fences:
  "regex_match s = Some g \<Longrightarrow> \<exists>p a b. s = p @ fence @ a @ fence @ b"
proof (induction s)
  case Nil
  then show ?case
    by (simp add: regex_match.simps [of "[]"] match_here_def fence_def)
next
  case (Cons c cs)
  show ?case
  proof (cases "match_here (c # cs)")
    case (Some g')
    then obtain a b where "c # cs = [] @ fence @ a @ fence @ b"
      using match_here_fence by fastforce
    then show ?thesis by blast
  next
    case None
    with Cons.prems have "regex_match cs = Some g"
      by (simp add: regex_match.simps [of "c # cs"])
    then obtain p a b where "cs = p @ fence @ a @ fence @ b"
      using Cons.IH by blast
    then have "c # cs = (c # p) @ fence @ a @ fence @ b" by simp
    then show ?thesis by blast
  qed
qed

lemma fences_block: "has_fenced_block (p @ fence @ a @ fence @ b)"
proof -
  let ?s = "p @ fence @ a @ fence @ b"
  let ?i = "length p" and ?j = "length p + 3 + length a"
  have "?i < length ?s" "?j < length ?s" "?i + 3 \<le> ?j"
    by (simp_all add: fence_length)
  moreover have "prefix fence (drop ?i ?s)" by simp
  moreover have "drop (length (p @ fence @ a)) ((p @ fence @ a) @ fence @ b) = fence @ b"
    by (metis append_eq_conv_conj)
  then have "prefix fence (drop ?j ?s)"
    by (simp add: fence_length)
  ultimately show ?thesis
    unfolding has_fenced_block_def by blast
qed

lemma regex_match_block: "regex_match s = Some g \<Longrightarrow> has_fenced_block s"
  using regex_match_fences fences_block by blast

lemma no_block_no_match: "\<not> has_fenced_block s \<Longrightarrow> regex_match s = None"
  using regex_match_block by (cases "regex_match s") auto

subsection \<open>The bracket scan\<close>

lemma indexOf_absent: "c \<notin> set s \<Longrightarrow> indexOf s c = - 1"
  by (induction s) auto

lemma indexOf_present:
  "c \<in> set s \<Longrightarrow> indexOf s c = int (length (takeWhile (\<lambda>x. x \<noteq> c) s))"
  by (induction s) (auto simp add: Let_def)

lemma indexOf_minus_one: "indexOf s c = - 1 \<longleftrightarrow> c \<notin> set s"
  using indexOf_absent [of c s] indexOf_present [of c s] by auto

lemma takeWhile_all_length: "c \<notin> set s \<Longrightarrow> length (takeWhile (\<lambda>x. x \<noteq> c) s) = length s"
  by (induction s) auto

lemma takeWhile_present_less: "c \<in> set s \<Longrightarrow> length (takeWhile (\<lambda>x. x \<noteq> c) s) < length s"
  by (induction s) auto

lemma takeWhile_rev_all: "\<forall>x \<in> set s. P x \<Longrightarrow> length (takeWhile P (rev s)) = length s"
  by (metis length_rev takeWhile_eq_all_conv set_rev)

lemma lastIndexOf_eq:
  "lastIndexOf s c = int (length s) - 1 - int (length (takeWhile (\<lambda>x. x \<noteq> c) (rev s)))"
proof (cases "c \<in> set s")
  case True
  then show ?thesis
    by (simp add: lastIndexOf_def Let_def indexOf_present indexOf_minus_one)
next
  case False
  then show ?thesis
    by (simp add: lastIndexOf_def Let_def indexOf_absent takeWhile_all_length)
qed

lemma takeWhile_two:
  "length (takeWhile (\<lambda>x. x \<noteq> a \<and> x \<noteq> b) s) =
     min (length (takeWhile (\<lambda>x. x \<noteq> a) s)) (length (takeWhile (\<lambda>x. x \<noteq> b) s))"
  by (induction s) auto

lemma first_opener_min:
  "first_opener s =
     min (length (takeWhile (\<lambda>x. x \<noteq> CHR ''{'') s)) (length (takeWhile (\<lambda>x. x \<noteq> CHR ''['') s))"
  by (simp add: first_opener_def is_opener_def takeWhile_two)

lemma last_closer_max:
  "int (length s) - 1 - int (length (takeWhile (\<lambda>c. \<not> is_closer c) (rev s))) =
     max (lastIndexOf s CHR ''}'') (lastIndexOf s CHR '']'')"
  by (simp add: is_closer_def takeWhile_two lastIndexOf_eq)

lemma startIdx_eq:
  "(if indexOf s CHR ''{'' \<noteq> - 1 \<and> indexOf s CHR ''['' \<noteq> - 1
    then min (indexOf s CHR ''{'') (indexOf s CHR ''['')
    else if indexOf s CHR ''{'' \<noteq> - 1 then indexOf s CHR ''{'' else indexOf s CHR ''['') =
   (if \<exists>c \<in> set s. is_opener c then int (first_opener s) else - 1)"
proof (cases "CHR ''{'' \<in> set s"; cases "CHR ''['' \<in> set s")
  assume a: "CHR ''{'' \<in> set s" "CHR ''['' \<in> set s"
  then show ?thesis
    by (auto simp add: indexOf_present indexOf_minus_one is_opener_def first_opener_min)
next
  assume a: "CHR ''{'' \<in> set s" "CHR ''['' \<notin> set s"
  then show ?thesis
    using takeWhile_present_less [of "CHR ''{''" s]
    by (auto simp add: indexOf_present indexOf_minus_one is_opener_def first_opener_min
          takeWhile_all_length)
next
  assume a: "CHR ''{'' \<notin> set s" "CHR ''['' \<in> set s"
  then show ?thesis
    using takeWhile_present_less [of "CHR ''[''" s]
    by (auto simp add: indexOf_present indexOf_minus_one is_opener_def first_opener_min
          takeWhile_all_length)
next
  assume a: "CHR ''{'' \<notin> set s" "CHR ''['' \<notin> set s"
  then show ?thesis
    by (auto simp add: indexOf_minus_one is_opener_def)
qed

lemma closer_present:
  "(\<exists>c \<in> set s. is_closer c) \<Longrightarrow> length (takeWhile (\<lambda>c. \<not> is_closer c) (rev s)) < length s"
proof -
  assume "\<exists>c \<in> set s. is_closer c"
  then have "takeWhile (\<lambda>c. \<not> is_closer c) (rev s) \<noteq> rev s"
    by (auto simp add: takeWhile_eq_all_conv)
  moreover have "length (takeWhile (\<lambda>c. \<not> is_closer c) (rev s)) \<le> length (rev s)"
    by (rule length_takeWhile_le)
  ultimately show ?thesis
    by (metis length_rev le_neq_implies_less takeWhile_eq_take take_all_iff order_refl)
qed

lemma endIdx_eq:
  "max (lastIndexOf s CHR ''}'') (lastIndexOf s CHR '']'') =
   (if \<exists>c \<in> set s. is_closer c then int (last_closer s) else - 1)"
proof (cases "\<exists>c \<in> set s. is_closer c")
  case True
  then have "length (takeWhile (\<lambda>c. \<not> is_closer c) (rev s)) < length s"
    by (rule closer_present)
  then have "int (last_closer s) =
      int (length s) - 1 - int (length (takeWhile (\<lambda>c. \<not> is_closer c) (rev s)))"
    by (simp add: last_closer_def)
  with True show ?thesis by (simp add: last_closer_max)
next
  case False
  then have "length (takeWhile (\<lambda>c. \<not> is_closer c) (rev s)) = length s"
    by (simp add: takeWhile_rev_all)
  with False show ?thesis
    by (simp add: last_closer_max [symmetric])
qed

lemma bracket_scan_eq:
  "bracket_scan jp text =
     (if \<not> (\<exists>c \<in> set text. is_opener c) \<or> \<not> (\<exists>c \<in> set text. is_closer c) then Returns JNull
      else JSON_parse jp (substring text (int (first_opener text)) (int (last_closer text) + 1)))"
  unfolding bracket_scan_def
  by (simp only: Let_def startIdx_eq endIdx_eq) auto

lemma last_closer_less: "\<exists>c \<in> set s. is_closer c \<Longrightarrow> last_closer s < length s"
  using closer_present [of s] by (simp add: last_closer_def)

lemma substring_span:
  assumes "first_opener s \<le> last_closer s" and "last_closer s < length s"
  shows "substring s (int (first_opener s)) (int (last_closer s) + 1) = bracket_span s"
proof -
  have "substring s (int (first_opener s)) (int (last_closer s) + 1) =
      take (nat (int (last_closer s) + 1 - int (first_opener s))) (drop (first_opener s) s)"
    using assms by (simp add: substring_def Let_def min_def max_def)
  moreover have "nat (int (last_closer s) + 1 - int (first_opener s)) =
      Suc (last_closer s) - first_opener s"
    using assms by linarith
  ultimately show ?thesis
    by (simp add: bracket_span_def)
qed

lemma span_empty: "last_closer s < first_opener s \<Longrightarrow> bracket_span s = []"
  by (simp add: bracket_span_def)

lemma parseJsonResponse_candidate:
  "parseJsonResponse jp text =
     Returns (case candidate text of
                None \<Rightarrow> JNull
              | Some c \<Rightarrow> (case jp c of None \<Rightarrow> JNull | Some v \<Rightarrow> v))"
  by (cases "regex_match text")
     (auto simp add: parseJsonResponse_def parseJsonResponse_try_def candidate_def
        bracket_scan_eq JSON_parse_def split: option.splits)

lemma no_backtick_no_block: "CHR 0x60 \<notin> set s \<Longrightarrow> \<not> has_fenced_block s"
proof
  assume a: "CHR 0x60 \<notin> set s" and "has_fenced_block s"
  then obtain i where "i < length s" "prefix fence (drop i s)"
    by (auto simp add: has_fenced_block_def)
  then obtain r where "drop i s = fence @ r"
    by (auto simp add: prefix_def)
  then have "CHR 0x60 \<in> set (drop i s)"
    by (simp add: fence_def)
  then have "CHR 0x60 \<in> set s"
    by (rule in_set_dropD)
  with a show False by contradiction
qed

lemma first_opener_le: "first_opener s \<le> length s"
  by (simp add: first_opener_def length_takeWhile_le)

text \<open>
  In a text with no fenced block, with an opener and with a closer, whose first opener is
  not after its last closer, the text handed to \<open>JSON.parse\<close> is the part from the first
  opener to the last closer, both included. Where the last closer comes first, that part
  is empty, and \<open>substring\<close>, given its arguments in the wrong order, swaps them: the text
  handed over is what lies between the last closer and the first opener, both excluded.
\<close>

lemma bracket_scan_ordered:
  assumes "\<not> has_fenced_block text"
    and "\<exists>c \<in> set text. is_opener c"
    and "\<exists>c \<in> set text. is_closer c"
    and "first_opener text \<le> last_closer text"
  shows "candidate text = Some (bracket_span text)"
    and "parseJsonResponse jp text =
           Returns (case jp (bracket_span text) of None \<Rightarrow> JNull | Some v \<Rightarrow> v)"
proof -
  have m: "regex_match text = None"
    using assms(1) by (rule no_block_no_match)
  have "substring text (int (first_opener text)) (int (last_closer text) + 1) = bracket_span text"
    using assms(3,4) by (simp add: substring_span last_closer_less)
  then show c: "candidate text = Some (bracket_span text)"
    using m assms(2,3) by (simp add: candidate_def)
  show "parseJsonResponse jp text =
           Returns (case jp (bracket_span text) of None \<Rightarrow> JNull | Some v \<Rightarrow> v)"
    by (simp add: parseJsonResponse_candidate c)
qed

lemma bracket_scan_swapped:
  assumes "\<not> has_fenced_block text"
    and "\<exists>c \<in> set text. is_opener c"
    and "\<exists>c \<in> set text. is_closer c"
    and "last_closer text < first_opener text"
  shows "bracket_span text = []"
    and "candidate text =
           Some (take (first_opener text - Suc (last_closer text))
                   (drop (Suc (last_closer text)) text))"
proof -
  show "bracket_span text = []"
    using assms(4) by (rule span_empty)
  have m: "regex_match text = None"
    using assms(1) by (rule no_block_no_match)
  have "substring text (int (first_opener text)) (int (last_closer text) + 1) =
      take (nat (int (first_opener text) - (int (last_closer text) + 1)))
        (drop (nat (int (last_closer text) + 1)) text)"
    using assms(4) first_opener_le [of "text"]
    by (simp add: substring_def Let_def min_def max_def)
  moreover have "nat (int (first_opener text) - (int (last_closer text) + 1)) =
      first_opener text - Suc (last_closer text)"
    by linarith
  moreover have "nat (int (last_closer text) + 1) = Suc (last_closer text)"
    by linarith
  ultimately have "substring text (int (first_opener text)) (int (last_closer text) + 1) =
      take (first_opener text - Suc (last_closer text)) (drop (Suc (last_closer text)) text)"
    by simp
  then show "candidate text =
           Some (take (first_opener text - Suc (last_closer text))
                   (drop (Suc (last_closer text)) text))"
    using m assms(2,3) by (simp add: candidate_def)
qed

lemma json_parse_empty: "json_parse [] = None"
  by code_simp

text \<open>
  C3. On \<open>] true [\<close>, a text with no fenced block, the first opener is at index 7 and the
  last closer at index 0: no part of the text runs from the first opener to the last
  closer, and \<open>JSON.parse\<close> throws on the empty text. \<open>parseJsonResponse\<close> calls
  \<open>substring(7, 1)\<close>, which is the text between the two brackets, and returns its parse,
  the value \<open>true\<close>.
\<close>

theorem closer_first_takes_between:
  "regex_match ''] true ['' = None
   \<and> first_opener ''] true ['' = 7 \<and> last_closer ''] true ['' = 0
   \<and> bracket_span ''] true ['' = [] \<and> json_parse [] = None
   \<and> substring ''] true ['' 7 (0 + 1) = '' true ''
   \<and> parseJsonResponse json_parse ''] true ['' = Returns (JBool True)"
proof -
  let ?t = "''] true [''"
  have b: "\<not> has_fenced_block ?t"
    by (rule no_backtick_no_block) simp
  then have m: "regex_match ?t = None"
    by (rule no_block_no_match)
  have o: "\<exists>c \<in> set ?t. is_opener c" and c: "\<exists>c \<in> set ?t. is_closer c"
    by (simp_all add: is_opener_def is_closer_def)
  have f: "first_opener ?t = 7" and l: "last_closer ?t = 0"
    by (simp_all add: first_opener_def last_closer_def is_opener_def is_closer_def)
  then have "last_closer ?t < first_opener ?t"
    by simp
  from bracket_scan_swapped [OF b o c this]
  have s: "bracket_span ?t = []" and k: "candidate ?t = Some '' true ''"
    by (simp_all add: f l)
  have sub: "substring ?t 7 (0 + 1) = '' true ''"
    by (simp add: substring_def)
  have "json_parse '' true '' = Some (JBool True)"
    by code_simp
  with k have "parseJsonResponse json_parse ?t = Returns (JBool True)"
    by (simp add: parseJsonResponse_candidate)
  with m f l s sub json_parse_empty show ?thesis
    by blast
qed




lemma json_parse_object: "json_parse ''{}'' = Some (JObj [])"
  by code_simp


subsection \<open>The first fenced block of a text\<close>

lemma dropWhile_fence: "dropWhile is_space (fence @ r) = fence @ r"
  by (simp add: fence_def is_space_def)

lemma match_tail_closing:
  assumes "\<forall>c \<in> set ws2. is_space c"
  shows "match_tail (ws2 @ fence @ post)"
  using assms by (simp add: match_tail_def dropWhile_append2 dropWhile_fence)

lemma prefix_fence_shorten:
  assumes "prefix fence (a @ post)" and "3 \<le> length a"
  shows "prefix fence a"
proof -
  from assms(1) consider "prefix fence a" | us where "fence = a @ us" "prefix us post"
    by (auto simp add: prefix_append)
  then show ?thesis
  proof cases
    case 1
    then show ?thesis .
  next
    case 2
    then have "length a + length us = 3"
      by (metis fence_length length_append)
    with assms(2) have "length us = 0" by linarith
    then have "us = []" by simp
    with 2 show ?thesis by simp
  qed
qed

lemma no_tail_inside:
  assumes body: "\<not> is_space (last body)"
    and inner: "no_fence_before (length body) (body @ ws2 @ fence)"
    and i: "i < length body"
  shows "\<not> match_tail (drop i body @ ws2 @ fence @ post)"
proof
  let ?t = "drop i body"
  let ?k = "length (takeWhile is_space ?t)"
  assume m: "match_tail (?t @ ws2 @ fence @ post)"
  from i have ne: "?t \<noteq> []" by simp
  then have "last ?t = last body"
    using i by simp
  with body ne have ex: "\<exists>x \<in> set ?t. \<not> is_space x"
    using last_in_set by metis
  then obtain x where x: "x \<in> set ?t" "\<not> is_space x" by blast
  have dw: "dropWhile is_space (?t @ ws2 @ fence @ post) = dropWhile is_space ?t @ ws2 @ fence @ post"
    using x by (rule dropWhile_append1)
  have "dropWhile is_space ?t \<noteq> []"
    using ex by simp
  then have k: "?k < length ?t"
    by (metis dropWhile_eq_drop drop_eq_Nil not_le_imp_less)
  have "dropWhile is_space ?t = drop (i + ?k) body"
    by (simp add: dropWhile_eq_drop add.commute)
  with m dw have p: "prefix fence (drop (i + ?k) body @ ws2 @ fence @ post)"
    by (simp add: match_tail_def)
  have j: "i + ?k < length body"
    using k i by simp
  have "prefix fence ((drop (i + ?k) body @ ws2 @ fence) @ post)"
    using p by simp
  then have "prefix fence (drop (i + ?k) body @ ws2 @ fence)"
    by (rule prefix_fence_shorten) (simp add: fence_length)
  then have "prefix fence (drop (i + ?k) (body @ ws2 @ fence))"
    using j by simp
  with inner j show False
    by (simp add: no_fence_before_def)
qed

lemma lazy_group_prefix:
  assumes "\<forall>i<length b. \<not> match_tail (drop i b @ r)" and "match_tail r"
  shows "lazy_group (b @ r) = Some b"
  using assms
proof (induction b)
  case Nil
  then show ?case by (simp add: lazy_group.simps [of r])
next
  case (Cons c cs)
  from Cons.prems(1) have 0: "\<not> match_tail ((c # cs) @ r)"
    by force
  have "\<forall>i<length cs. \<not> match_tail (drop i cs @ r)"
  proof (intro allI impI)
    fix i assume "i < length cs"
    then have "Suc i < length (c # cs)" by simp
    with Cons.prems(1) have "\<not> match_tail (drop (Suc i) (c # cs) @ r)" by blast
    then show "\<not> match_tail (drop i cs @ r)" by simp
  qed
  then have "lazy_group (cs @ r) = Some cs"
    using Cons.IH Cons.prems(2) by blast
  with 0 show ?case
    by (simp add: lazy_group.simps [of "c # cs @ r"])
qed

lemma after_space_body:
  assumes "\<forall>c \<in> set ws1. is_space c" and "body \<noteq> []" and "\<not> is_space (hd body)"
    and "lazy_group (body @ r) = Some body"
  shows "after_space (ws1 @ body @ r) = Some body"
  using assms
proof (induction ws1)
  case Nil
  then obtain b bs where "body = b # bs" by (cases body) auto
  with Nil show ?case by simp
next
  case (Cons c cs)
  then show ?case by simp
qed

lemma json_letters: "c \<in> set ''json'' \<Longrightarrow> \<not> is_space c \<and> c \<noteq> CHR 0x60"
  by (auto simp add: is_space_def)

lemma prefix_json_body:
  assumes "prefix ''json'' (body @ ws2 @ fence @ post)" and "\<forall>c \<in> set ws2. is_space c"
  shows "prefix ''json'' body"
proof -
  from assms(1) consider "prefix ''json'' body"
    | us where "''json'' = body @ us" "prefix us (ws2 @ fence @ post)"
    by (auto simp add: prefix_append)
  then show ?thesis
  proof cases
    case 1
    then show ?thesis .
  next
    case 2
    show ?thesis
    proof (cases us)
      case Nil
      with 2 show ?thesis by simp
    next
      case (Cons u us')
      with 2(1) have "u \<in> set ''json''"
        by (metis in_set_conv_decomp)
      then have u: "\<not> is_space u" "u \<noteq> CHR 0x60"
        using json_letters by blast+
      from 2(2) Cons obtain rest where r: "ws2 @ fence @ post = u # rest"
        by (auto simp add: prefix_def)
      show ?thesis
      proof (cases ws2)
        case Nil
        with r have "u = CHR 0x60" by (simp add: fence_def)
        with u show ?thesis by simp
      next
        case (Cons w ws)
        with r have "u = w" by simp
        with Cons assms(2) u show ?thesis by simp
      qed
    qed
  qed
qed

lemma after_tag_body:
  assumes tag: "tag = [] \<or> tag = ''json''"
    and ws: "\<forall>c \<in> set ws1. is_space c" "\<forall>c \<in> set ws2. is_space c"
    and body: "body \<noteq> []" "\<not> is_space (hd body)"
    and nojson: "tag = [] \<and> ws1 = [] \<longrightarrow> \<not> prefix ''json'' body"
    and lg: "lazy_group (body @ ws2 @ fence @ post) = Some body"
  shows "after_tag (tag @ ws1 @ body @ ws2 @ fence @ post) = Some body"
proof -
  have as: "after_space (ws1 @ body @ ws2 @ fence @ post) = Some body"
    using ws(1) body lg by (rule after_space_body)
  from tag show ?thesis
  proof
    assume t: "tag = ''json''"
    then show ?thesis
      using as by (simp add: after_tag_def)
  next
    assume t: "tag = []"
    have "\<not> prefix ''json'' (ws1 @ body @ ws2 @ fence @ post)"
    proof
      assume p: "prefix ''json'' (ws1 @ body @ ws2 @ fence @ post)"
      have "ws1 = []"
      proof (cases ws1)
        case Nil
        then show ?thesis .
      next
        case (Cons w ws')
        with p have "w = CHR ''j''" by simp
        moreover from Cons ws(1) have "is_space w" by simp
        ultimately show ?thesis by (simp add: is_space_def)
      qed
      with p have "prefix ''json'' (body @ ws2 @ fence @ post)"
        by simp
      then have "prefix ''json'' body"
        using ws(2) by (rule prefix_json_body)
      with nojson t \<open>ws1 = []\<close> show False by simp
    qed
    with t as show ?thesis
      by (simp add: after_tag_def)
  qed
qed

lemma regex_match_skip:
  assumes "no_fence_before (length pre) (pre @ t)"
  shows "regex_match (pre @ t) = regex_match t"
  using assms
proof (induction pre)
  case Nil
  show ?case by simp
next
  case (Cons p ps)
  from Cons.prems have "\<not> prefix fence (drop 0 ((p # ps) @ t))"
    unfolding no_fence_before_def by (metis length_greater_0_conv list.distinct(1))
  then have h: "match_here (p # ps @ t) = None"
    by (simp add: match_here_def)
  have "no_fence_before (length ps) (ps @ t)"
    unfolding no_fence_before_def
  proof (intro allI impI)
    fix i assume "i < length ps"
    then have "Suc i < length (p # ps)" by simp
    with Cons.prems have "\<not> prefix fence (drop (Suc i) ((p # ps) @ t))"
      unfolding no_fence_before_def by blast
    then show "\<not> prefix fence (drop i (ps @ t))" by simp
  qed
  then have "regex_match (ps @ t) = regex_match t"
    by (rule Cons.IH)
  with h show ?case
    by (simp add: regex_match.simps [of "p # ps @ t"])
qed

lemma first_block_match:
  assumes split: "text = pre @ fence @ tag @ ws1 @ body @ ws2 @ fence @ post"
    and first: "no_fence_before (length pre) text"
    and tag: "tag = [] \<or> tag = ''json''"
    and ws: "\<forall>c \<in> set ws1. is_space c" "\<forall>c \<in> set ws2. is_space c"
    and body: "body \<noteq> []" "\<not> is_space (hd body)" "\<not> is_space (last body)"
    and nojson: "tag = [] \<and> ws1 = [] \<longrightarrow> \<not> prefix ''json'' body"
    and inner: "no_fence_before (length body) (body @ ws2 @ fence)"
  shows "regex_match text = Some body"
proof -
  let ?r = "ws2 @ fence @ post"
  have "\<forall>i<length body. \<not> match_tail (drop i body @ ?r)"
    using body(3) inner by (simp add: no_tail_inside)
  moreover have "match_tail ?r"
    using ws(2) by (rule match_tail_closing)
  ultimately have "lazy_group (body @ ?r) = Some body"
    by (rule lazy_group_prefix)
  with tag ws body(1,2) nojson have "after_tag (tag @ ws1 @ body @ ?r) = Some body"
    by (rule after_tag_body)
  then have "match_here (fence @ tag @ ws1 @ body @ ?r) = Some body"
    by (simp add: match_here_def fence_length)
  then have "regex_match (fence @ tag @ ws1 @ body @ ?r) = Some body"
    by (simp add: regex_match.simps [of "fence @ tag @ ws1 @ body @ ?r"])
  moreover have "regex_match (pre @ fence @ tag @ ws1 @ body @ ?r) =
      regex_match (fence @ tag @ ws1 @ body @ ?r)"
    using first unfolding split by (rule regex_match_skip)
  ultimately show ?thesis
    by (simp add: split)
qed

lemma no_backtick_no_fence_before:
  assumes "CHR 0x60 \<notin> set p"
  shows "no_fence_before (length p) (p @ r)"
  unfolding no_fence_before_def
proof (intro allI impI notI)
  fix i assume i: "i < length p" and f: "prefix fence (drop i (p @ r))"
  from i have "drop i (p @ r) = p ! i # drop (Suc i) p @ r"
    by (simp add: Cons_nth_drop_Suc)
  with f have "p ! i = CHR 0x60"
    by (simp add: fence_def)
  with i assms show False
    by (metis nth_mem)
qed

text \<open>
  A first block with nothing inside, or white space only: the lazy group matches the empty
  text, whatever comes after the closing fence.
\<close>

lemma after_space_blank:
  assumes "\<forall>c \<in> set ws. is_space c"
  shows "after_space (ws @ fence @ post) = Some []"
  using assms
proof (induction ws)
  case Nil
  have "match_tail (fence @ post)"
    using match_tail_closing [of "[]" post] by simp
  then have "lazy_group (fence @ post) = Some []"
    by (simp add: lazy_group.simps [of "fence @ post"])
  moreover have "after_space (fence @ post) = lazy_group (fence @ post)"
    by (simp add: fence_def is_space_def)
  ultimately show ?case by simp
next
  case (Cons c cs)
  then show ?case by simp
qed

lemma after_tag_blank:
  assumes "tag = [] \<or> tag = ''json''" and "\<forall>c \<in> set ws. is_space c"
  shows "after_tag (tag @ ws @ fence @ post) = Some []"
proof -
  have as: "after_space (ws @ fence @ post) = Some []"
    using assms(2) by (rule after_space_blank)
  from assms(1) show ?thesis
  proof
    assume "tag = ''json''"
    then show ?thesis
      using as by (simp add: after_tag_def)
  next
    assume t: "tag = []"
    have "\<not> prefix ''json'' (ws @ fence @ post)"
    proof (cases ws)
      case Nil
      then show ?thesis by (simp add: fence_def)
    next
      case (Cons w ws')
      with assms(2) have "is_space w" by simp
      then have "w \<noteq> CHR ''j''"
        by (auto simp add: is_space_def)
      with Cons show ?thesis by simp
    qed
    with t as show ?thesis
      by (simp add: after_tag_def)
  qed
qed

lemma blank_block_match:
  assumes "text = pre @ fence @ tag @ ws @ fence @ post"
    and "no_fence_before (length pre) text"
    and "tag = [] \<or> tag = ''json''"
    and "\<forall>c \<in> set ws. is_space c"
  shows "regex_match text = Some []"
proof -
  have "after_tag (tag @ ws @ fence @ post) = Some []"
    using assms(3,4) by (rule after_tag_blank)
  then have "match_here (fence @ tag @ ws @ fence @ post) = Some []"
    by (simp add: match_here_def fence_length)
  then have "regex_match (fence @ tag @ ws @ fence @ post) = Some []"
    by (simp add: regex_match.simps [of "fence @ tag @ ws @ fence @ post"])
  moreover have "regex_match (pre @ fence @ tag @ ws @ fence @ post) =
      regex_match (fence @ tag @ ws @ fence @ post)"
    using assms(2) unfolding assms(1) by (rule regex_match_skip)
  ultimately show ?thesis
    by (simp add: assms(1))
qed

text \<open>
  C2, as the code has it. The text is split at its first fence: the fence, the tag
  \<open>json\<close> or none, white space, an interior, white space, the closing fence. The interior
  is not empty, starts and ends with no white space and has no fence of its own. When it is
  valid JSON, \<open>parseJsonResponse\<close> returns its parse, whatever comes after the block and
  whatever fence-free prose comes before it.
\<close>

theorem first_fence_parsed:
  assumes "text = pre @ fence @ tag @ ws1 @ body @ ws2 @ fence @ post"
    and "no_fence_before (length pre) text"
    and "tag = [] \<or> tag = ''json''"
    and "\<forall>c \<in> set ws1. is_space c" and "\<forall>c \<in> set ws2. is_space c"
    and "body \<noteq> []" and "\<not> is_space (hd body)" and "\<not> is_space (last body)"
    and "tag = [] \<and> ws1 = [] \<longrightarrow> \<not> prefix ''json'' body"
    and "no_fence_before (length body) (body @ ws2 @ fence)"
    and "jp body = Some v"
  shows "parseJsonResponse jp text = Returns v"
proof -
  have "regex_match text = Some body"
    using assms(1-10) by (rule first_block_match)
  then show ?thesis
    using assms(6,11)
    by (simp add: parseJsonResponse_def parseJsonResponse_try_def JSON_parse_def)
qed

theorem first_fence_parsed_witness:
  "''Here it is: ```json {} ``` Note [x}'' =
      ''Here it is: '' @ fence @ ''json'' @ '' '' @ ''{}'' @ '' '' @ fence @ '' Note [x}''
   \<and> json_parse ''{}'' = Some (JObj [])
   \<and> parseJsonResponse json_parse ''Here it is: ```json {} ``` Note [x}'' = Returns (JObj [])"
proof -
  let ?text = "''Here it is: ```json {} ``` Note [x}''"
  have a: "?text = ''Here it is: '' @ fence @ ''json'' @ '' '' @ ''{}'' @ '' '' @ fence @ '' Note [x}''"
    by (simp add: fence_def)
  have "no_fence_before (length ''Here it is: '')
      (''Here it is: '' @ fence @ ''json'' @ '' '' @ ''{}'' @ '' '' @ fence @ '' Note [x}'')"
    by (rule no_backtick_no_fence_before) simp
  then have b: "no_fence_before (length ''Here it is: '') ?text"
    by (simp add: fence_def)
  have c: "''json'' = [] \<or> ''json'' = ''json''"
    by simp
  have d: "\<forall>c \<in> set '' ''. is_space c"
    by (simp add: is_space_def)
  have e: "''{}'' \<noteq> []" "\<not> is_space (hd ''{}'')" "\<not> is_space (last ''{}'')"
    by (simp_all add: is_space_def)
  have f: "''json'' = [] \<and> '' '' = [] \<longrightarrow> \<not> prefix ''json'' ''{}''"
    by simp
  have g: "no_fence_before (length ''{}'') (''{}'' @ '' '' @ fence)"
    by (rule no_backtick_no_fence_before) simp
  from first_fence_parsed [where ?text = ?text and pre = "''Here it is: ''" and tag = "''json''"
      and ?ws1.0 = "'' ''" and body = "''{}''" and ?ws2.0 = "'' ''" and post = "'' Note [x}''"
      and jp = json_parse and v = "JObj []", OF a b c d d e f g json_parse_object]
    a json_parse_object
  show ?thesis by blast
qed

lemma json_parse_prose: "json_parse ''not json'' = None"
  by code_simp

text \<open>
  C10, as the code has it. With the text split as above, at its first fence, and an
  interior that is not empty and not valid JSON, \<open>parseJsonResponse\<close> returns null: the
  interior is the one text handed to \<open>JSON.parse\<close>, and the brackets around the block are
  not looked at. With an empty interior, so that the first block holds white space only or
  nothing, the group is empty, the test \<open>match && match[1]\<close> fails, and the result is that
  of the bracket scan over the whole text, with null for a throw.
\<close>

theorem first_fence_unparsable:
  assumes "text = pre @ fence @ tag @ ws1 @ body @ ws2 @ fence @ post"
    and "no_fence_before (length pre) text"
    and "tag = [] \<or> tag = ''json''"
    and "\<forall>c \<in> set ws1. is_space c" and "\<forall>c \<in> set ws2. is_space c"
  shows "(body \<noteq> [] \<and> \<not> is_space (hd body) \<and> \<not> is_space (last body)
           \<and> (tag = [] \<and> ws1 = [] \<longrightarrow> \<not> prefix ''json'' body)
           \<and> no_fence_before (length body) (body @ ws2 @ fence)
           \<and> jp body = None
          \<longrightarrow> parseJsonResponse jp text = Returns JNull \<and> candidate text = Some body)
       \<and> (body = []
          \<longrightarrow> regex_match text = Some []
              \<and> parseJsonResponse jp text =
                  (case bracket_scan jp text of Throws e \<Rightarrow> Returns JNull | Returns v \<Rightarrow> Returns v))"
proof (intro conjI impI)
  assume h: "body \<noteq> [] \<and> \<not> is_space (hd body) \<and> \<not> is_space (last body)
           \<and> (tag = [] \<and> ws1 = [] \<longrightarrow> \<not> prefix ''json'' body)
           \<and> no_fence_before (length body) (body @ ws2 @ fence)
           \<and> jp body = None"
  then have b: "body \<noteq> []" "\<not> is_space (hd body)" "\<not> is_space (last body)"
    "tag = [] \<and> ws1 = [] \<longrightarrow> \<not> prefix ''json'' body"
    "no_fence_before (length body) (body @ ws2 @ fence)" and j: "jp body = None"
    by simp_all
  have m: "regex_match text = Some body"
    using assms(1-5) b by (rule first_block_match)
  show "parseJsonResponse jp text = Returns JNull"
    using m b(1) j by (simp add: parseJsonResponse_def parseJsonResponse_try_def JSON_parse_def)
  show "candidate text = Some body"
    using m b(1) by (simp add: candidate_def)
next
  assume e: "body = []"
  have a: "text = pre @ fence @ tag @ (ws1 @ ws2) @ fence @ post"
    using assms(1) e by simp
  have w: "\<forall>c \<in> set (ws1 @ ws2). is_space c"
    using assms(4,5) by auto
  show m: "regex_match text = Some []"
    using a assms(2,3) w by (rule blank_block_match)
  show "parseJsonResponse jp text =
      (case bracket_scan jp text of Throws e \<Rightarrow> Returns JNull | Returns v \<Rightarrow> Returns v)"
    by (simp add: parseJsonResponse_def parseJsonResponse_try_def m)
qed

theorem first_fence_unparsable_witness:
  "''```not json``` then {}'' = [] @ fence @ [] @ [] @ ''not json'' @ [] @ fence @ '' then {}''
   \<and> json_parse ''not json'' = None
   \<and> json_parse (bracket_span ''```not json``` then {}'') = Some (JObj [])
   \<and> parseJsonResponse json_parse ''```not json``` then {}'' = Returns JNull
   \<and> ''```json  ``` then {}'' = [] @ fence @ ''json'' @ '' '' @ [] @ '' '' @ fence @ '' then {}''
   \<and> regex_match ''```json  ``` then {}'' = Some []
   \<and> bracket_scan json_parse ''```json  ``` then {}'' = Returns (JObj [])
   \<and> parseJsonResponse json_parse ''```json  ``` then {}'' = Returns (JObj [])"
proof -
  let ?text = "''```not json``` then {}''"
  have a: "?text = [] @ fence @ [] @ [] @ ''not json'' @ [] @ fence @ '' then {}''"
    by (simp add: fence_def)
  have b: "no_fence_before (length ([] :: string)) ?text"
    by (simp add: no_fence_before_def)
  have c: "([] :: string) = [] \<or> ([] :: string) = ''json''"
    by simp
  have d: "\<forall>c \<in> set ([] :: string). is_space c"
    by simp
  have e: "''not json'' \<noteq> []" "\<not> is_space (hd ''not json'')" "\<not> is_space (last ''not json'')"
    by (simp_all add: is_space_def)
  have n: "\<not> prefix ''json'' ''not json''"
    by simp
  then have f: "([] :: string) = [] \<and> ([] :: string) = [] \<longrightarrow> \<not> prefix ''json'' ''not json''"
    by simp
  have g: "no_fence_before (length ''not json'') (''not json'' @ [] @ fence)"
    by (rule no_backtick_no_fence_before) simp
  have s: "bracket_span ?text = ''{}''"
    by (simp add: bracket_span_def first_opener_def last_closer_def is_opener_def is_closer_def)
  have p: "parseJsonResponse json_parse ?text = Returns JNull"
    using first_fence_unparsable [where ?text = ?text and pre = "[]" and tag = "[]"
      and ?ws1.0 = "[]" and body = "''not json''" and ?ws2.0 = "[]" and post = "'' then {}''"
      and jp = json_parse, OF a b c d d] e f g json_parse_prose
    by blast
  have q: "json_parse (bracket_span ?text) = Some (JObj [])"
    by (simp only: s json_parse_object)
  let ?blank = "''```json  ``` then {}''"
  have a': "?blank = [] @ fence @ ''json'' @ '' '' @ [] @ '' '' @ fence @ '' then {}''"
    by (simp add: fence_def)
  have b': "no_fence_before (length ([] :: string)) ?blank"
    by (simp add: no_fence_before_def)
  have c': "''json'' = [] \<or> ''json'' = ''json''"
    by simp
  have d': "\<forall>c \<in> set '' ''. is_space c"
    by (simp add: is_space_def)
  have k: "bracket_scan json_parse ?blank = Returns (JObj [])"
    by code_simp
  have "regex_match ?blank = Some []
      \<and> parseJsonResponse json_parse ?blank =
          (case bracket_scan json_parse ?blank of Throws e \<Rightarrow> Returns JNull | Returns v \<Rightarrow> Returns v)"
    using first_fence_unparsable [where ?text = ?blank and pre = "[]" and tag = "''json''"
      and ?ws1.0 = "'' ''" and body = "[]" and ?ws2.0 = "'' ''" and post = "'' then {}''"
      and jp = json_parse, OF a' b' c' d' d']
    by blast
  then have r: "regex_match ?blank = Some []"
    and t: "parseJsonResponse json_parse ?blank = Returns (JObj [])"
    by (simp_all add: k)
  from a json_parse_prose q p a' r k t show ?thesis by blast
qed

text \<open>
  A fenced block of valid JSON that is not the first fenced block of the text is not
  returned, and neither is one whose JSON has a fence inside a string: the match stops at
  the first closing fence.
\<close>

theorem later_fence_counterexample:
  "json_parse ''{}'' = Some (JObj [])
   \<and> parseJsonResponse json_parse ''Run ```ls``` to get ```json {} ```'' = Returns JNull
   \<and> json_parse ([CHR 0x22] @ ''```'' @ [CHR 0x22]) = Some (JStr [96, 96, 96])
   \<and> parseJsonResponse json_parse (''```json '' @ [CHR 0x22] @ ''```'' @ [CHR 0x22] @ '' ```'')
       = Returns JNull"
proof -
  have "regex_match ''Run ```ls``` to get ```json {} ```'' = Some ''ls''"
    by code_simp
  moreover have "json_parse ''ls'' = None"
    by code_simp
  ultimately have 1: "parseJsonResponse json_parse ''Run ```ls``` to get ```json {} ```'' = Returns JNull"
    by (simp add: parseJsonResponse_def parseJsonResponse_try_def JSON_parse_def)
  have 2: "json_parse ([CHR 0x22] @ ''```'' @ [CHR 0x22]) = Some (JStr [96, 96, 96])"
    by code_simp
  have "regex_match (''```json '' @ [CHR 0x22] @ ''```'' @ [CHR 0x22] @ '' ```'') = Some [CHR 0x22]"
    by code_simp
  moreover have "json_parse [CHR 0x22] = None"
    by code_simp
  ultimately have 3: "parseJsonResponse json_parse
      (''```json '' @ [CHR 0x22] @ ''```'' @ [CHR 0x22] @ '' ```'') = Returns JNull"
    by (simp add: parseJsonResponse_def parseJsonResponse_try_def JSON_parse_def)
  from json_parse_object 1 2 3 show ?thesis by blast
qed

text \<open>
  A fenced block with nothing but white space inside has an interior that is not valid
  JSON, and the bracket scan runs all the same: the empty group does not pass the test
  \<open>match && match[1]\<close>. And a fenced block that is not valid JSON, after a first one that
  is, does not make the result null.
\<close>

theorem fence_not_null_counterexample:
  "json_parse [] = None \<and> json_parse '' '' = None
   \<and> regex_match ''```json ``` {}'' = Some []
   \<and> parseJsonResponse json_parse ''```json ``` {}'' = Returns (JObj [])
   \<and> json_parse ''oops'' = None
   \<and> parseJsonResponse json_parse ''```json {} ``` then ```oops```'' = Returns (JObj [])"
proof -
  have m: "regex_match ''```json ``` {}'' = Some []"
    by code_simp
  have e: "json_parse '' '' = None"
    by code_simp
  have "candidate ''```json ``` {}'' = Some ''{}''"
    by (simp add: m candidate_def is_opener_def is_closer_def first_opener_def last_closer_def
          substring_def)
  then have 1: "parseJsonResponse json_parse ''```json ``` {}'' = Returns (JObj [])"
    by (simp add: json_parse_object parseJsonResponse_candidate)
  have o: "json_parse ''oops'' = None"
    by code_simp
  have "regex_match ''```json {} ``` then ```oops```'' = Some ''{}''"
    by code_simp
  then have 2: "parseJsonResponse json_parse ''```json {} ``` then ```oops```'' = Returns (JObj [])"
    by (simp add: json_parse_object parseJsonResponse_def parseJsonResponse_try_def JSON_parse_def)
  from json_parse_empty e m 1 o 2 show ?thesis by blast
qed

end
